theory Spec2Isabelle
  imports Main
begin

section \<open>Domain model (internal/domain/game.go)\<close>

text \<open>
  The server is built for amd64, where the Go type \<open>int\<close> has 64 bits. Its values are
  modelled as integers, and the arithmetic of the tick engine on the score, on the count
  of dots and on coordinate differences is written with its wrap-around (\<open>wrap_int\<close>);
  \<open>fits_int\<close> says that an integer is a value of the type. \<open>time.Time\<close> values are
  natural-number timestamps handed in by the caller, and a \<open>rune\<close> of the board is a
  \<open>char\<close> (the maze is ASCII).
\<close>

definition fits_int :: "int \<Rightarrow> bool" where
  "fits_int x = (- (2 ^ 63) \<le> x \<and> x < 2 ^ 63)"

definition wrap_int :: "int \<Rightarrow> int" where
  "wrap_int x = (x + 2 ^ 63) mod 2 ^ 64 - 2 ^ 63"

datatype Direction =
  DirectionUp | DirectionDown | DirectionLeft | DirectionRight | DirectionNone

record Position =
  X :: int
  Y :: int

type_synonym Time = nat

record Ghost =
  Position :: Position
  Direction :: Direction

record Game =
  ID :: string
  Board :: "char list list"
  Player :: Position
  Ghosts :: "Ghost list"
  Score :: int
  DotsLeft :: int
  GameOver :: bool
  PlayerDir :: Direction
  CreatedAt :: Time
  UpdatedAt :: Time

text \<open>
  \<open>Position.Move\<close>: one cell in the given direction, no bounds check. The step is
  written without the wrap-around: the tick engine keeps the result only when
  \<open>IsValidPosition\<close> accepts it, and for a position whose coordinates are values of
  the type the answer and the accepted position are the same with and without it
  (\<open>Move_wrap_immaterial\<close> below).
\<close>

fun Move :: "Position \<Rightarrow> Direction \<Rightarrow> Position" where
  "Move p DirectionUp = p\<lparr>Y := Y p - 1\<rparr>"
| "Move p DirectionDown = p\<lparr>Y := Y p + 1\<rparr>"
| "Move p DirectionLeft = p\<lparr>X := X p - 1\<rparr>"
| "Move p DirectionRight = p\<lparr>X := X p + 1\<rparr>"
| "Move p DirectionNone = p"

definition Equals :: "Position \<Rightarrow> Position \<Rightarrow> bool" where
  "Equals p other = (X p = X other \<and> Y p = Y other)"

text \<open>
  Reading \<open>Board[y][x]\<close>: Go panics when an index is negative or not below the length
  of the slice. \<open>None\<close> is that panic.
\<close>

definition board_at :: "char list list \<Rightarrow> int \<Rightarrow> int \<Rightarrow> char option" where
  "board_at b y x =
     (if 0 \<le> y \<and> nat y < length b
      then (if 0 \<le> x \<and> nat x < length (b ! nat y)
            then Some ((b ! nat y) ! nat x) else None)
      else None)"

text \<open>Writing \<open>Board[y][x] = c\<close>, used only after a successful read of the same cell.\<close>

definition board_set :: "char list list \<Rightarrow> int \<Rightarrow> int \<Rightarrow> char \<Rightarrow> char list list" where
  "board_set b y x c = b[nat y := (b ! nat y)[nat x := c]]"

text \<open>
  \<open>Game.IsValidPosition\<close>: the bounds test comes first and answers \<open>false\<close>; only an
  in-bounds position reads the board. \<open>None\<close> is the index panic of that read.
\<close>

definition IsValidPosition :: "Game \<Rightarrow> Position \<Rightarrow> int \<Rightarrow> int \<Rightarrow> bool option" where
  "IsValidPosition g pos width height =
     (if X pos < 0 \<or> X pos \<ge> width \<or> Y pos < 0 \<or> Y pos \<ge> height then Some False
      else (case board_at (Board g) (Y pos) (X pos) of
              None \<Rightarrow> None
            | Some c \<Rightarrow> Some (c \<noteq> CHR ''#'')))"

section \<open>In-memory repository\<close>

datatype error =
  ErrEmptyID | ErrNotFound | ErrGameNotFound | ErrGameEnded | ErrSaveFailed | ErrUpdateFailed

text \<open>
  The repository maps an identifier to a pointer to a game; every game is a distinct
  object, so the store is a map from identifiers to game values and a mutation through
  the pointer returned by \<open>FindByID\<close> is an update of the map at that identifier.
\<close>

type_synonym Repo = "string \<rightharpoonup> Game"

definition Save :: "Repo \<Rightarrow> Game \<Rightarrow> error + Repo" where
  "Save repo game = (if ID game = [] then Inl ErrEmptyID else Inr (repo(ID game \<mapsto> game)))"

definition FindByID :: "Repo \<Rightarrow> string \<Rightarrow> error + Game" where
  "FindByID repo ident =
     (if ident = [] then Inl ErrEmptyID
      else (case repo ident of None \<Rightarrow> Inl ErrNotFound | Some game \<Rightarrow> Inr game))"

definition Delete :: "Repo \<Rightarrow> string \<Rightarrow> error + Repo" where
  "Delete repo ident = (if ident = [] then Inl ErrEmptyID else Inr (repo(ident := None)))"

definition Exists :: "Repo \<Rightarrow> string \<Rightarrow> bool" where
  "Exists repo ident = (if ident = [] then False else repo ident \<noteq> None)"

section \<open>Game service (internal/service/game_service.go)\<close>

definition GameWidth :: int where "GameWidth = 20"
definition GameHeight :: int where "GameHeight = 15"
definition ScorePerDot :: int where "ScorePerDot = 10"

definition abs_go :: "int \<Rightarrow> int" where
  "abs_go x = (if x < 0 then wrap_int (- x) else x)"

subsection \<open>Random source\<close>

text \<open>
  \<open>math/rand\<close> is a library: the generator is an arbitrary infinite sequence of
  naturals, \<open>Intn n\<close> takes the next one reduced below \<open>n\<close>, and \<open>Shuffle\<close> is the
  library's Fisher-Yates loop (\<open>i\<close> from \<open>n - 1\<close> down to 1, swapping \<open>i\<close> with
  \<open>Intn (i + 1)\<close>).
\<close>

type_synonym Rand = "nat \<Rightarrow> nat"

definition Intn :: "nat \<Rightarrow> Rand \<Rightarrow> nat \<times> Rand" where
  "Intn n r = (r 0 mod n, \<lambda>i. r (Suc i))"

definition swap :: "nat \<Rightarrow> nat \<Rightarrow> 'a list \<Rightarrow> 'a list" where
  "swap i j xs = xs[i := xs ! j, j := xs ! i]"

fun ShuffleLoop :: "nat \<Rightarrow> Rand \<Rightarrow> 'a list \<Rightarrow> 'a list \<times> Rand" where
  "ShuffleLoop 0 r xs = (xs, r)"
| "ShuffleLoop (Suc i) r xs =
     (case Intn (Suc i + 1) r of (j, r') \<Rightarrow> ShuffleLoop i r' (swap (Suc i) j xs))"

definition Shuffle :: "Rand \<Rightarrow> 'a list \<Rightarrow> 'a list \<times> Rand" where
  "Shuffle r xs = ShuffleLoop (length xs - 1) r xs"

text \<open>\<open>domain.Direction(k)\<close> for the result of \<open>Intn 4\<close>, in the order of the constants.\<close>

definition DirectionOf :: "nat \<Rightarrow> Direction" where
  "DirectionOf k =
     (if k = 0 then DirectionUp else if k = 1 then DirectionDown
      else if k = 2 then DirectionLeft else if k = 3 then DirectionRight
      else DirectionNone)"

subsection \<open>Session creation\<close>

definition maze :: "string list" where
  "maze =
   [''####################'',
    ''#..................#'',
    ''#.##.##.##.##.##.###'',
    ''#..................#'',
    ''#.##.##....##.##.###'',
    ''#......##.##......##'',
    ''#.##.##....##.##.###'',
    ''#..................#'',
    ''#.##.##.##.##.##.###'',
    ''#..................#'',
    ''#.##....##....##.###'',
    ''#......##.##......##'',
    ''#.##....##....##.###'',
    ''#..................#'',
    ''####################'']"

definition buildRow :: "string \<Rightarrow> char list" where
  "buildRow mazeRow =
     map (\<lambda>j. if j < length mazeRow then mazeRow ! j else CHR ''#'') [0..<nat GameWidth]"

definition rowDots :: "string \<Rightarrow> int" where
  "rowDots mazeRow =
     int (length (filter (\<lambda>j. j < length mazeRow \<and> mazeRow ! j = CHR ''.'') [0..<nat GameWidth]))"

definition initializeGame :: "Time \<Rightarrow> Time \<Rightarrow> string \<Rightarrow> Game" where
  "initializeGame created updated sessionID =
     \<lparr>ID = sessionID,
      Board = map buildRow (take (nat GameHeight) maze),
      Player = \<lparr>X = 1, Y = 1\<rparr>,
      Ghosts =
        [\<lparr>Position = \<lparr>X = GameWidth - 2, Y = GameHeight - 2\<rparr>, Direction = DirectionLeft\<rparr>,
         \<lparr>Position = \<lparr>X = GameWidth - 2, Y = 1\<rparr>, Direction = DirectionLeft\<rparr>,
         \<lparr>Position = \<lparr>X = 1, Y = GameHeight - 2\<rparr>, Direction = DirectionRight\<rparr>],
      Score = 0,
      DotsLeft = sum_list (map rowDots (take (nat GameHeight) maze)),
      GameOver = False,
      PlayerDir = DirectionNone,
      CreatedAt = created,
      UpdatedAt = updated\<rparr>"

text \<open>
  In \<open>initializeGame\<close> the count of dots is at most 300 and the coordinates are
  constants, so nothing wraps there. \<open>CreateGame\<close> returns the new game or the
  error, and the store; a game saved under an identifier that is in use takes the place of
  the old one.
\<close>

definition CreateGame :: "Time \<Rightarrow> Time \<Rightarrow> Repo \<Rightarrow> string \<Rightarrow> (error + Game) \<times> Repo" where
  "CreateGame created updated repo sessionID =
     (if sessionID = [] then (Inl ErrEmptyID, repo)
      else
        (let game = initializeGame created updated sessionID in
         case Save repo game of
           Inl e \<Rightarrow> (Inl ErrSaveFailed, repo)
         | Inr repo' \<Rightarrow> (Inr game, repo')))"

subsection \<open>Set the pending heading\<close>

text \<open>
  \<open>SetPlayerDirection\<close> returns the error (if any) and the store. The two field
  assignments go through the pointer, so they are in the store before \<open>Save\<close> runs.
\<close>

definition SetPlayerDirection ::
  "Time \<Rightarrow> Repo \<Rightarrow> string \<Rightarrow> Direction \<Rightarrow> (error + unit) \<times> Repo" where
  "SetPlayerDirection now repo sessionID dir =
     (case FindByID repo sessionID of
        Inl e \<Rightarrow> (Inl ErrGameNotFound, repo)
      | Inr game \<Rightarrow>
          (let game' = game\<lparr>PlayerDir := dir, UpdatedAt := now\<rparr>;
               repo1 = repo(sessionID \<mapsto> game')
           in (case Save repo1 game' of
                 Inl e \<Rightarrow> (Inl ErrUpdateFailed, repo1)
               | Inr repo2 \<Rightarrow> (Inr (), repo2))))"

subsection \<open>Tick engine\<close>

text \<open>\<open>movePlayer\<close>; \<open>None\<close> is an index panic on a board smaller than 20 x 15.\<close>

definition movePlayer :: "Game \<Rightarrow> Game option" where
  "movePlayer game =
     (if PlayerDir game = DirectionNone then Some game
      else
        (let newPos = Move (Player game) (PlayerDir game) in
         case IsValidPosition game newPos GameWidth GameHeight of
           None \<Rightarrow> None
         | Some False \<Rightarrow> Some game
         | Some True \<Rightarrow>
             (case board_at (Board game) (Y newPos) (X newPos) of
                None \<Rightarrow> None
              | Some c \<Rightarrow>
                  if c = CHR ''.''
                  then Some (game\<lparr>Player := newPos,
                                  Board := board_set (Board game) (Y newPos) (X newPos) CHR '' '',
                                  Score := wrap_int (Score game + ScorePerDot),
                                  DotsLeft := wrap_int (DotsLeft game - 1)\<rparr>)
                  else Some (game\<lparr>Player := newPos\<rparr>))))"

text \<open>The heading an adversary tries first: erratic with a roll below 30, chase otherwise.\<close>

definition chaseDir :: "Position \<Rightarrow> Position \<Rightarrow> Direction" where
  "chaseDir player ghostPos =
     (let dx = wrap_int (X player - X ghostPos); dy = wrap_int (Y player - Y ghostPos) in
      if abs_go dx > abs_go dy
      then (if dx > 0 then DirectionRight else DirectionLeft)
      else (if dy > 0 then DirectionDown else DirectionUp))"

definition chooseDir :: "Game \<Rightarrow> Rand \<Rightarrow> Ghost \<Rightarrow> Direction \<times> Rand" where
  "chooseDir game r ghost =
     (case Intn 100 r of (roll, r1) \<Rightarrow>
        if roll < 30
        then (case Intn 4 r1 of (k, r2) \<Rightarrow> (DirectionOf k, r2))
        else (chaseDir (Player game) (Position ghost), r1))"

text \<open>The scan of the shuffled headings: the first passable one is taken, then \<open>break\<close>.\<close>

fun tryDirs :: "Game \<Rightarrow> Ghost \<Rightarrow> Direction list \<Rightarrow> Ghost option" where
  "tryDirs game ghost [] = Some ghost"
| "tryDirs game ghost (d # ds) =
     (case IsValidPosition game (Move (Position ghost) d) GameWidth GameHeight of
        None \<Rightarrow> None
      | Some True \<Rightarrow> Some (ghost\<lparr>Position := Move (Position ghost) d, Direction := d\<rparr>)
      | Some False \<Rightarrow> tryDirs game ghost ds)"

text \<open>The body of the loop of \<open>moveGhosts\<close> for one adversary.\<close>

definition moveGhost :: "Game \<Rightarrow> Rand \<Rightarrow> Ghost \<Rightarrow> (Ghost \<times> Rand) option" where
  "moveGhost game r ghost =
     (case chooseDir game r ghost of (dir, r1) \<Rightarrow>
        (let newPos = Move (Position ghost) dir in
         case IsValidPosition game newPos GameWidth GameHeight of
           None \<Rightarrow> None
         | Some True \<Rightarrow> Some (ghost\<lparr>Position := newPos, Direction := dir\<rparr>, r1)
         | Some False \<Rightarrow>
             (case Shuffle r1 [DirectionUp, DirectionDown, DirectionLeft, DirectionRight] of
                (dirs, r2) \<Rightarrow>
                  (case tryDirs game ghost dirs of
                     None \<Rightarrow> None
                   | Some ghost' \<Rightarrow> Some (ghost', r2)))))"

text \<open>
  The loop over the adversaries, in list order. Each iteration reads the player and the
  board, which the loop does not change, and its own adversary.
\<close>

fun moveGhostsLoop :: "Game \<Rightarrow> Rand \<Rightarrow> Ghost list \<Rightarrow> (Ghost list \<times> Rand) option" where
  "moveGhostsLoop game r [] = Some ([], r)"
| "moveGhostsLoop game r (ghost # rest) =
     (case moveGhost game r ghost of
        None \<Rightarrow> None
      | Some (ghost', r1) \<Rightarrow>
          (case moveGhostsLoop game r1 rest of
             None \<Rightarrow> None
           | Some (rest', r2) \<Rightarrow> Some (ghost' # rest', r2)))"

definition moveGhosts :: "Rand \<Rightarrow> Game \<Rightarrow> (Game \<times> Rand) option" where
  "moveGhosts r game =
     (case moveGhostsLoop game r (Ghosts game) of
        None \<Rightarrow> None
      | Some (ghosts', r') \<Rightarrow> Some (game\<lparr>Ghosts := ghosts'\<rparr>, r'))"

fun checkCollisionsLoop :: "Game \<Rightarrow> Ghost list \<Rightarrow> Game" where
  "checkCollisionsLoop game [] = game"
| "checkCollisionsLoop game (ghost # rest) =
     (if Equals (Player game) (Position ghost) then game\<lparr>GameOver := True\<rparr>
      else checkCollisionsLoop game rest)"

definition checkCollisions :: "Game \<Rightarrow> Game" where
  "checkCollisions game = checkCollisionsLoop game (Ghosts game)"

text \<open>
  \<open>gameTick\<close> returns its error (\<open>Inr ()\<close> is \<open>nil\<close>), the store and the generator;
  \<open>None\<close> is a panic. The game is changed through the pointer, so the store holds the new
  value at \<open>sessionID\<close> before \<open>Save\<close> writes it under the game's own identifier.
\<close>

definition gameTick ::
  "Time \<Rightarrow> Rand \<Rightarrow> Repo \<Rightarrow> string \<Rightarrow> ((error + unit) \<times> Repo \<times> Rand) option" where
  "gameTick now r repo sessionID =
     (case FindByID repo sessionID of
        Inl e \<Rightarrow> Some (Inl ErrGameNotFound, repo, r)
      | Inr game \<Rightarrow>
          if GameOver game \<or> DotsLeft game = 0 then Some (Inl ErrGameEnded, repo, r)
          else
            (case movePlayer game of
               None \<Rightarrow> None
             | Some g1 \<Rightarrow>
                 (case moveGhosts r g1 of
                    None \<Rightarrow> None
                  | Some (g2, r') \<Rightarrow>
                      (let g3 = (checkCollisions g2)\<lparr>UpdatedAt := now\<rparr>;
                           repo1 = repo(sessionID \<mapsto> g3)
                       in (case Save repo1 g3 of
                             Inl e \<Rightarrow> Some (Inl ErrSaveFailed, repo1, r')
                           | Inr repo2 \<Rightarrow> Some (Inr (), repo2, r'))))))"

text \<open>\<open>runGameLoop\<close> goes on to the next tick exactly when \<open>gameTick\<close> returned \<open>nil\<close>.\<close>

definition continue :: "(error + unit) \<Rightarrow> bool" where
  "continue err = (case err of Inl e \<Rightarrow> False | Inr u \<Rightarrow> True)"

section \<open>Loop supervisor\<close>

text \<open>
  Every call of \<open>context.WithCancel\<close> makes a new context; the n-th one made is task
  \<open>n\<close>. Its cancel function closes the context's \<open>Done\<close> channel (\<open>cancelled\<close>);
  the goroutine started with it runs \<open>runGameLoop\<close> until that function returns
  (\<open>returned\<close>). \<open>gameLoops\<close> is the registry of cancel functions, one per identifier.
  Each operation below runs under \<open>gameLoopMu\<close>, so it is one atomic step.
\<close>

record LoopTask =
  session :: string
  cancelled :: bool
  returned :: bool

record Supervisor =
  gameLoops :: "string \<rightharpoonup> nat"
  tasks :: "LoopTask list"

definition newSupervisor :: Supervisor where
  "newSupervisor = \<lparr>gameLoops = Map.empty, tasks = []\<rparr>"

definition cancel :: "nat \<Rightarrow> Supervisor \<Rightarrow> Supervisor" where
  "cancel t s =
     (if t < length (tasks s)
      then s\<lparr>tasks := (tasks s)[t := (tasks s ! t)\<lparr>cancelled := True\<rparr>]\<rparr>
      else s)"

definition StartGameLoop :: "Repo \<Rightarrow> string \<Rightarrow> Supervisor \<Rightarrow> (error + unit) \<times> Supervisor" where
  "StartGameLoop repo sessionID s =
     (if \<not> Exists repo sessionID then (Inl ErrGameNotFound, s)
      else
        (let t = length (tasks s);
             s1 = (case gameLoops s sessionID of
                     Some existing \<Rightarrow> cancel existing s
                   | None \<Rightarrow> s);
             s2 = s1\<lparr>gameLoops := (gameLoops s1)(sessionID \<mapsto> t)\<rparr>
         in (Inr (),
             s2\<lparr>tasks := tasks s2 @ [\<lparr>session = sessionID, cancelled = False, returned = False\<rparr>]\<rparr>)))"

definition stopGameLoop :: "string \<Rightarrow> Supervisor \<Rightarrow> Supervisor" where
  "stopGameLoop sessionID s =
     (case gameLoops s sessionID of
        Some t \<Rightarrow> (cancel t s)\<lparr>gameLoops := (gameLoops s)(sessionID := None)\<rparr>
      | None \<Rightarrow> s)"

definition cleanupGameLoop :: "string \<Rightarrow> Supervisor \<Rightarrow> Supervisor" where
  "cleanupGameLoop sessionID s = s\<lparr>gameLoops := (gameLoops s)(sessionID := None)\<rparr>"

text \<open>
  The goroutine of task \<open>t\<close> leaves \<open>runGameLoop\<close>: the deferred \<open>cleanupGameLoop\<close> runs
  with the task's session identifier.
\<close>

definition loopReturns :: "nat \<Rightarrow> Supervisor \<Rightarrow> Supervisor" where
  "loopReturns t s =
     cleanupGameLoop (session (tasks s ! t))
       (s\<lparr>tasks := (tasks s)[t := (tasks s ! t)\<lparr>returned := True\<rparr>]\<rparr>)"

text \<open>
  The steps of the supervisor: a start request, a stop request, a task that sees its
  context cancelled and returns, and a task whose tick returned an error and returns.
  \<open>None\<close> marks a step that cannot happen in the state.
\<close>

datatype event = Start string | Stop string | CancelSeen nat | TickFailed nat

fun step :: "Repo \<Rightarrow> Supervisor \<Rightarrow> event \<Rightarrow> Supervisor option" where
  "step repo s (Start sessionID) = Some (snd (StartGameLoop repo sessionID s))"
| "step repo s (Stop sessionID) = Some (stopGameLoop sessionID s)"
| "step repo s (CancelSeen t) =
     (if t < length (tasks s) \<and> cancelled (tasks s ! t) \<and> \<not> returned (tasks s ! t)
      then Some (loopReturns t s) else None)"
| "step repo s (TickFailed t) =
     (if t < length (tasks s) \<and> \<not> returned (tasks s ! t)
      then Some (loopReturns t s) else None)"

fun steps :: "Repo \<Rightarrow> Supervisor \<Rightarrow> event list \<Rightarrow> Supervisor option" where
  "steps repo s [] = Some s"
| "steps repo s (e # es) =
     (case step repo s e of None \<Rightarrow> None | Some s' \<Rightarrow> steps repo s' es)"

text \<open>The tasks that still tick a session: started for it, not cancelled, not returned.\<close>

definition running :: "string \<Rightarrow> Supervisor \<Rightarrow> LoopTask list" where
  "running sessionID s =
     filter (\<lambda>t. session t = sessionID \<and> \<not> cancelled t \<and> \<not> returned t) (tasks s)"

definition runningCount :: "string \<Rightarrow> Supervisor option \<Rightarrow> nat option" where
  "runningCount sessionID so =
     (case so of None \<Rightarrow> None | Some s \<Rightarrow> Some (length (running sessionID s)))"

section \<open>Notions used by the properties\<close>

text \<open>The board of every session built by \<open>initializeGame\<close>: 15 rows of 20 cells.\<close>

definition board_ok :: "char list list \<Rightarrow> bool" where
  "board_ok b =
     (int (length b) = GameHeight \<and> (\<forall>row \<in> set b. int (length row) = GameWidth))"

text \<open>\<open>Save\<close> files a game under its own identifier, so every stored game has its key.\<close>

definition repo_ok :: "Repo \<Rightarrow> bool" where
  "repo_ok repo = (\<forall>k g. repo k = Some g \<longrightarrow> ID g = k)"

definition passable :: "Game \<Rightarrow> Position \<Rightarrow> bool" where
  "passable g pos = (IsValidPosition g pos GameWidth GameHeight = Some True)"

text \<open>
  Modelled from the spec: \<open>opposite\<close> is not a function of the source; it is the
  reversal of headings that the reversibility property of \<open>Move\<close> is stated with: up and
  down are swapped, left and right are swapped, none stays none.
\<close>

fun opposite :: "Direction \<Rightarrow> Direction" where
  "opposite DirectionUp = DirectionDown"
| "opposite DirectionDown = DirectionUp"
| "opposite DirectionLeft = DirectionRight"
| "opposite DirectionRight = DirectionLeft"
| "opposite DirectionNone = DirectionNone"

text \<open>
  The stores that can follow a store when ticks and heading requests, for any session
  and with any clock and generator, are applied one after the other.
\<close>

inductive later :: "Repo \<Rightarrow> Repo \<Rightarrow> bool" where
  later_refl: "later repo repo"
| later_tick:
    "later repo repo1 \<Longrightarrow> gameTick now r repo1 sessionID = Some (err, repo2, r')
       \<Longrightarrow> later repo repo2"
| later_heading:
    "later repo repo1 \<Longrightarrow> SetPlayerDirection now repo1 sessionID dir = (err, repo2)
       \<Longrightarrow> later repo repo2"

text \<open>
  The stores the service can reach from the empty store of \<open>NewGameRepository\<close>:
  sessions are created (a restart deletes and creates), deleted, ticked and given
  headings, one operation after the other.
\<close>

inductive reachable :: "Repo \<Rightarrow> bool" where
  reach_new: "reachable Map.empty"
| reach_create:
    "reachable repo \<Longrightarrow> CreateGame created updated repo sessionID = (res, repo')
       \<Longrightarrow> reachable repo'"
| reach_delete:
    "reachable repo \<Longrightarrow> Delete repo sessionID = Inr repo' \<Longrightarrow> reachable repo'"
| reach_tick:
    "reachable repo \<Longrightarrow> gameTick now r repo sessionID = Some (err, repo', r')
       \<Longrightarrow> reachable repo'"
| reach_heading:
    "reachable repo \<Longrightarrow> SetPlayerDirection now repo sessionID dir = (err, repo')
       \<Longrightarrow> reachable repo'"

text \<open>The number of dots on a board.\<close>

definition dots :: "char list list \<Rightarrow> nat" where
  "dots b = length (filter (\<lambda>c. c = CHR ''.'') (concat b))"

text \<open>
  What every session of a reachable store satisfies: the board has 15 rows of 20 cells,
  the count of dots left is the number of dots on the board, the score is ten times the
  number of dots eaten, and the player and the adversaries stand on passable cells.
\<close>

definition session_ok :: "Game \<Rightarrow> bool" where
  "session_ok g =
     (board_ok (Board g)
      \<and> DotsLeft g = int (dots (Board g))
      \<and> 0 \<le> Score g
      \<and> Score g + ScorePerDot * DotsLeft g = ScorePerDot * DotsLeft (initializeGame 0 0 [])
      \<and> passable g (Player g)
      \<and> (\<forall>ghost \<in> set (Ghosts g). passable g (Position ghost)))"

text \<open>
  One step of an adversary: it stays where it is, or it is on a passable cell next to
  where it was.
\<close>

definition ghost_step_ok :: "Game \<Rightarrow> Ghost \<Rightarrow> Ghost \<Rightarrow> bool" where
  "ghost_step_ok game ghost ghost' =
     (Position ghost' = Position ghost
      \<or> (passable game (Position ghost') \<and> (\<exists>d. Position ghost' = Move (Position ghost) d)))"

text \<open>The game a tick that runs the movement steps stores.\<close>

definition ticked :: "Time \<Rightarrow> Game \<Rightarrow> Ghost list \<Rightarrow> Game" where
  "ticked now g1 ghosts' = (checkCollisions (g1\<lparr>Ghosts := ghosts'\<rparr>))\<lparr>UpdatedAt := now\<rparr>"

text \<open>The continuation condition as the specification words it.\<close>

definition keepsGoing :: "Game \<Rightarrow> bool" where
  "keepsGoing g = (\<not> GameOver g \<and> DotsLeft g > 0)"

text \<open>Concrete data for the instances below.\<close>

definition newGame :: Game where
  "newGame = initializeGame 0 0 ''s''"

definition collisionGame :: Game where
  "collisionGame =
     newGame\<lparr>Ghosts := [\<lparr>Position = \<lparr>X = 1, Y = 2\<rparr>, Direction = DirectionLeft\<rparr>]\<rparr>"

definition dotGame :: Game where
  "dotGame = newGame\<lparr>PlayerDir := DirectionRight\<rparr>"

definition endedGame :: Game where
  "endedGame = newGame\<lparr>GameOver := True\<rparr>"

definition tieGame :: Game where
  "tieGame =
     newGame\<lparr>Ghosts := [\<lparr>Position = \<lparr>X = 4, Y = 4\<rparr>, Direction = DirectionLeft\<rparr>]\<rparr>"

definition constRand :: "nat \<Rightarrow> Rand" where
  "constRand k = (\<lambda>i. k)"

definition store1 :: "Game \<Rightarrow> Repo" where
  "store1 g = Map.empty(ID g \<mapsto> g)"

definition tick_err ::
  "((error + unit) \<times> Repo \<times> Rand) option \<Rightarrow> (error + unit) option" where
  "tick_err t = (case t of None \<Rightarrow> None | Some (err, repo, r) \<Rightarrow> Some err)"

definition tick_game ::
  "string \<Rightarrow> ((error + unit) \<times> Repo \<times> Rand) option \<Rightarrow> Game option" where
  "tick_game sessionID t = (case t of None \<Rightarrow> None | Some (err, repo, r) \<Rightarrow> repo sessionID)"

section \<open>Board and movement lemmas\<close>

lemma wrap_int_fits: "fits_int x \<Longrightarrow> wrap_int x = x"
  by (simp add: fits_int_def wrap_int_def)

lemma board_at_in_range:
  assumes "board_ok b" "0 \<le> x" "x < GameWidth" "0 \<le> y" "y < GameHeight"
  shows "board_at b y x = Some ((b ! nat y) ! nat x)"
proof -
  from assms have y: "nat y < length b" by (auto simp: board_ok_def)
  then have "b ! nat y \<in> set b" by simp
  with assms have "nat x < length (b ! nat y)" by (auto simp: board_ok_def)
  with y assms show ?thesis by (simp add: board_at_def)
qed

lemma IsValidPosition_total:
  assumes "board_ok (Board g)"
  shows "\<exists>v. IsValidPosition g pos GameWidth GameHeight = Some v"
proof (cases "X pos < 0 \<or> X pos \<ge> GameWidth \<or> Y pos < 0 \<or> Y pos \<ge> GameHeight")
  case True
  then have "IsValidPosition g pos GameWidth GameHeight = Some False"
    by (simp add: IsValidPosition_def)
  then show ?thesis by blast
next
  case False
  then have "board_at (Board g) (Y pos) (X pos) = Some ((Board g ! nat (Y pos)) ! nat (X pos))"
    using assms by (intro board_at_in_range) auto
  with False show ?thesis by (simp add: IsValidPosition_def)
qed

lemma board_ok_board_set: "board_ok b \<Longrightarrow> board_ok (board_set b y x c)"
proof (cases "nat y < length b")
  case True
  assume ok: "board_ok b"
  with True have "int (length (b ! nat y)) = GameWidth" by (simp add: board_ok_def)
  with ok show ?thesis
    unfolding board_ok_def board_set_def
    by (auto dest!: set_update_subset_insert [THEN subsetD])
next
  case False
  assume "board_ok b"
  moreover from False have "b[nat y := (b ! nat y)[nat x := c]] = b"
    by (simp add: list_update_beyond)
  ultimately show ?thesis by (simp add: board_set_def)
qed

lemma board_at_board_set:
  assumes "0 \<le> y" "0 \<le> x"
  shows "board_at (board_set b y x c) y' x' =
     (if y' = y \<and> x' = x then (if board_at b y x = None then None else Some c)
      else board_at b y' x')"
  using assms
  by (auto simp: board_at_def board_set_def nth_list_update split: if_splits)

lemma passable_bounds:
  assumes "passable g pos"
  shows "0 \<le> X pos \<and> X pos < GameWidth \<and> 0 \<le> Y pos \<and> Y pos < GameHeight"
  using assms unfolding passable_def IsValidPosition_def
  by (auto split: if_splits)

lemma passable_iff:
  "passable g pos \<longleftrightarrow>
     (0 \<le> X pos \<and> X pos < GameWidth \<and> 0 \<le> Y pos \<and> Y pos < GameHeight
      \<and> (\<exists>c. board_at (Board g) (Y pos) (X pos) = Some c \<and> c \<noteq> CHR ''#''))"
  unfolding passable_def IsValidPosition_def
  by (auto split: if_splits option.splits)

lemma passable_board_set:
  assumes "passable g pos" "0 \<le> y" "0 \<le> x" "Board g' = board_set (Board g) y x CHR '' ''"
  shows "passable g' pos"
  using assms unfolding passable_iff
  by (auto simp: board_at_board_set)

lemma passable_same_board: "Board g' = Board g \<Longrightarrow> passable g' pos = passable g pos"
  by (simp add: passable_def IsValidPosition_def)

lemma IsValidPosition_same_board:
  "Board g' = Board g \<Longrightarrow> IsValidPosition g' pos w h = IsValidPosition g pos w h"
  by (simp add: IsValidPosition_def)

text \<open>The three ways \<open>movePlayer\<close> can end.\<close>

lemma movePlayer_cases:
  assumes "movePlayer g = Some g'"
  shows "g' = g
     \<or> (passable g (Move (Player g) (PlayerDir g))
         \<and> board_at (Board g) (Y (Move (Player g) (PlayerDir g))) (X (Move (Player g) (PlayerDir g)))
             \<noteq> Some CHR ''.''
         \<and> g' = g\<lparr>Player := Move (Player g) (PlayerDir g)\<rparr>)
     \<or> (passable g (Move (Player g) (PlayerDir g))
         \<and> board_at (Board g) (Y (Move (Player g) (PlayerDir g))) (X (Move (Player g) (PlayerDir g)))
             = Some CHR ''.''
         \<and> g' = g\<lparr>Player := Move (Player g) (PlayerDir g),
                   Board := board_set (Board g) (Y (Move (Player g) (PlayerDir g)))
                              (X (Move (Player g) (PlayerDir g))) CHR '' '',
                   Score := wrap_int (Score g + ScorePerDot),
                   DotsLeft := wrap_int (DotsLeft g - 1)\<rparr>)"
  using assms unfolding movePlayer_def passable_def
  by (auto simp: Let_def split: if_splits option.splits bool.splits)

lemma movePlayer_total:
  assumes "board_ok (Board g)"
  shows "\<exists>g'. movePlayer g = Some g'"
proof -
  obtain v where v: "IsValidPosition g (Move (Player g) (PlayerDir g)) GameWidth GameHeight = Some v"
    using IsValidPosition_total [OF assms] by blast
  show ?thesis
  proof (cases v)
    case True
    with v have "passable g (Move (Player g) (PlayerDir g))" by (simp add: passable_def)
    then obtain c where
      "board_at (Board g) (Y (Move (Player g) (PlayerDir g))) (X (Move (Player g) (PlayerDir g))) = Some c"
      by (auto simp: passable_iff)
    with v True show ?thesis by (simp add: movePlayer_def Let_def)
  next
    case False
    with v show ?thesis by (simp add: movePlayer_def Let_def)
  qed
qed

lemma movePlayer_eats:
  assumes "PlayerDir g \<noteq> DirectionNone"
    and "passable g (Move (Player g) (PlayerDir g))"
    and "board_at (Board g) (Y (Move (Player g) (PlayerDir g))) (X (Move (Player g) (PlayerDir g)))
           = Some CHR ''.''"
  shows "movePlayer g =
     Some (g\<lparr>Player := Move (Player g) (PlayerDir g),
             Board := board_set (Board g) (Y (Move (Player g) (PlayerDir g)))
                        (X (Move (Player g) (PlayerDir g))) CHR '' '',
             Score := wrap_int (Score g + ScorePerDot),
             DotsLeft := wrap_int (DotsLeft g - 1)\<rparr>)"
  using assms by (simp add: movePlayer_def Let_def passable_def)

lemma movePlayer_frame:
  assumes "movePlayer g = Some g'"
  shows "ID g' = ID g \<and> Ghosts g' = Ghosts g \<and> GameOver g' = GameOver g
     \<and> PlayerDir g' = PlayerDir g \<and> CreatedAt g' = CreatedAt g \<and> UpdatedAt g' = UpdatedAt g"
  using movePlayer_cases [OF assms] by auto

lemma movePlayer_mono:
  assumes "movePlayer g = Some g'" "fits_int (Score g + ScorePerDot)" "fits_int (DotsLeft g - 1)"
  shows "Score g \<le> Score g' \<and> DotsLeft g' \<le> DotsLeft g"
  using movePlayer_cases [OF assms(1)] assms(2,3)
  by (auto simp: ScorePerDot_def wrap_int_fits)

lemma movePlayer_board_ok:
  assumes "movePlayer g = Some g'" "board_ok (Board g)"
  shows "board_ok (Board g')"
  using movePlayer_cases [OF assms(1)] assms(2) by (auto simp: board_ok_board_set)

lemma movePlayer_passable:
  assumes "movePlayer g = Some g'" "passable g pos"
  shows "passable g' pos"
proof -
  let ?n = "Move (Player g) (PlayerDir g)"
  from movePlayer_cases [OF assms(1)]
  consider "Board g' = Board g"
    | "passable g ?n" "Board g' = board_set (Board g) (Y ?n) (X ?n) CHR '' ''"
    by auto
  then show ?thesis
  proof cases
    case 1
    from passable_same_board [OF 1] assms(2) show ?thesis by simp
  next
    case 2
    from passable_bounds [OF 2(1)] have b: "0 \<le> Y ?n" "0 \<le> X ?n" by simp_all
    show ?thesis by (rule passable_board_set [OF assms(2) b 2(2)])
  qed
qed

lemma movePlayer_position:
  assumes "movePlayer g = Some g'"
  shows "Player g' = Player g
     \<or> (Player g' = Move (Player g) (PlayerDir g) \<and> passable g (Move (Player g) (PlayerDir g)))"
  using movePlayer_cases [OF assms] by auto

lemma movePlayer_no_new_dot:
  assumes "movePlayer g = Some g'" "board_at (Board g') y x = Some CHR ''.''"
  shows "board_at (Board g) y x = Some CHR ''.''"
proof -
  let ?n = "Move (Player g) (PlayerDir g)"
  from movePlayer_cases [OF assms(1)]
  consider "Board g' = Board g"
    | "passable g ?n" "Board g' = board_set (Board g) (Y ?n) (X ?n) CHR '' ''"
    by auto
  then show ?thesis
  proof cases
    case 1
    with assms(2) show ?thesis by simp
  next
    case 2
    from passable_bounds [OF 2(1)] have "0 \<le> Y ?n" "0 \<le> X ?n" by simp_all
    with assms(2) 2(2) show ?thesis
      by (auto simp: board_at_board_set split: if_splits)
  qed
qed

section \<open>Adversaries, collisions and the tick\<close>

lemma tryDirs_total:
  assumes "board_ok (Board game)"
  shows "\<exists>ghost'. tryDirs game ghost ds = Some ghost'"
proof (induction ds)
  case Nil
  show ?case by simp
next
  case (Cons d ds)
  obtain v where "IsValidPosition game (Move (Position ghost) d) GameWidth GameHeight = Some v"
    using IsValidPosition_total [OF assms] by blast
  with Cons show ?case by (cases v) simp_all
qed

lemma tryDirs_position:
  assumes "tryDirs game ghost ds = Some ghost'"
  shows "Position ghost' = Position ghost
     \<or> (passable game (Position ghost') \<and> (\<exists>d. Position ghost' = Move (Position ghost) d))"
  using assms
proof (induction ds)
  case Nil
  then show ?case by simp
next
  case (Cons d ds)
  then show ?case
    by (auto simp: passable_def split: option.splits bool.splits)
qed

lemma moveGhost_total:
  assumes "board_ok (Board game)"
  shows "\<exists>ghost' r'. moveGhost game r ghost = Some (ghost', r')"
proof -
  obtain dir r1 where c: "chooseDir game r ghost = (dir, r1)" by (cases "chooseDir game r ghost")
  obtain v where v: "IsValidPosition game (Move (Position ghost) dir) GameWidth GameHeight = Some v"
    using IsValidPosition_total [OF assms] by blast
  obtain dirs r2 where
    s: "Shuffle r1 [DirectionUp, DirectionDown, DirectionLeft, DirectionRight] = (dirs, r2)"
    by (cases "Shuffle r1 [DirectionUp, DirectionDown, DirectionLeft, DirectionRight]")
  obtain ghost' where t: "tryDirs game ghost dirs = Some ghost'"
    using tryDirs_total [OF assms] by blast
  from c v s t show ?thesis by (cases v) (simp_all add: moveGhost_def)
qed

lemma moveGhost_position:
  assumes "moveGhost game r ghost = Some (ghost', r')"
  shows "Position ghost' = Position ghost
     \<or> (passable game (Position ghost') \<and> (\<exists>d. Position ghost' = Move (Position ghost) d))"
proof -
  obtain dir r1 where c: "chooseDir game r ghost = (dir, r1)" by (cases "chooseDir game r ghost")
  obtain dirs r2 where
    s: "Shuffle r1 [DirectionUp, DirectionDown, DirectionLeft, DirectionRight] = (dirs, r2)"
    by (cases "Shuffle r1 [DirectionUp, DirectionDown, DirectionLeft, DirectionRight]")
  from assms c s consider
      "passable game (Move (Position ghost) dir)" "Position ghost' = Move (Position ghost) dir"
    | "tryDirs game ghost dirs = Some ghost'"
    by (auto simp: moveGhost_def passable_def Let_def split: option.splits bool.splits)
  then show ?thesis
  proof cases
    case 1
    then show ?thesis by auto
  next
    case 2
    then show ?thesis by (rule tryDirs_position)
  qed
qed

lemma moveGhostsLoop_total:
  assumes "board_ok (Board game)"
  shows "\<exists>ghosts' r'. moveGhostsLoop game r ghosts = Some (ghosts', r')"
proof (induction ghosts arbitrary: r)
  case Nil
  show ?case by simp
next
  case (Cons ghost rest)
  obtain ghost' r1 where "moveGhost game r ghost = Some (ghost', r1)"
    using moveGhost_total [OF assms] by blast
  moreover obtain rest' r2 where "moveGhostsLoop game r1 rest = Some (rest', r2)"
    using Cons by blast
  ultimately show ?case by simp
qed

lemma moveGhostsLoop_positions:
  assumes "moveGhostsLoop game r ghosts = Some (ghosts', r')"
  shows "list_all2 (ghost_step_ok game) ghosts ghosts'"
  using assms
proof (induction ghosts arbitrary: r ghosts')
  case Nil
  then show ?case by simp
next
  case (Cons ghost rest)
  from Cons.prems obtain ghost' r1 rest' where
    a: "moveGhost game r ghost = Some (ghost', r1)"
    and b: "moveGhostsLoop game r1 rest = Some (rest', r')"
    and c: "ghosts' = ghost' # rest'"
    by (auto split: option.splits)
  from moveGhost_position [OF a] have "ghost_step_ok game ghost ghost'"
    by (simp add: ghost_step_ok_def)
  with Cons.IH [OF b] c show ?case by simp
qed

lemma checkCollisionsLoop_cases:
  "checkCollisionsLoop game ghosts = game \<or> checkCollisionsLoop game ghosts = game\<lparr>GameOver := True\<rparr>"
  by (induction ghosts) auto

lemma checkCollisionsLoop_hit:
  "(\<exists>ghost \<in> set ghosts. Equals (Player game) (Position ghost))
     \<Longrightarrow> checkCollisionsLoop game ghosts = game\<lparr>GameOver := True\<rparr>"
  by (induction ghosts) auto

lemma checkCollisions_cases:
  "checkCollisions game = game \<or> checkCollisions game = game\<lparr>GameOver := True\<rparr>"
  unfolding checkCollisions_def by (rule checkCollisionsLoop_cases)

lemma ticked_fields:
  "ID (ticked now g1 ghosts') = ID g1 \<and> Board (ticked now g1 ghosts') = Board g1
   \<and> Player (ticked now g1 ghosts') = Player g1 \<and> Ghosts (ticked now g1 ghosts') = ghosts'
   \<and> Score (ticked now g1 ghosts') = Score g1 \<and> DotsLeft (ticked now g1 ghosts') = DotsLeft g1
   \<and> PlayerDir (ticked now g1 ghosts') = PlayerDir g1
   \<and> CreatedAt (ticked now g1 ghosts') = CreatedAt g1
   \<and> UpdatedAt (ticked now g1 ghosts') = now
   \<and> (GameOver g1 \<longrightarrow> GameOver (ticked now g1 ghosts'))"
  using checkCollisions_cases [of "g1\<lparr>Ghosts := ghosts'\<rparr>"]
  unfolding ticked_def by auto

lemma FindByID_Inr: "FindByID repo sid = Inr g \<longleftrightarrow> sid \<noteq> [] \<and> repo sid = Some g"
  by (auto simp: FindByID_def split: option.splits)

lemma gameTick_not_found:
  assumes "FindByID repo sid = Inl e"
  shows "gameTick now r repo sid = Some (Inl ErrGameNotFound, repo, r)"
  using assms by (simp add: gameTick_def)

lemma gameTick_ended:
  assumes "FindByID repo sid = Inr g" "GameOver g \<or> DotsLeft g = 0"
  shows "gameTick now r repo sid = Some (Inl ErrGameEnded, repo, r)"
  using assms by (auto simp: gameTick_def)

lemma gameTick_moves:
  assumes "FindByID repo sid = Inr g" "\<not> GameOver g" "DotsLeft g \<noteq> 0"
    and "movePlayer g = Some g1" "moveGhostsLoop g1 r (Ghosts g1) = Some (ghosts', r')"
  shows "gameTick now r repo sid =
     Some (if ID g = [] then Inl ErrSaveFailed else Inr (),
           if ID g = [] then repo(sid \<mapsto> ticked now g1 ghosts')
           else repo(sid \<mapsto> ticked now g1 ghosts', ID g \<mapsto> ticked now g1 ghosts'),
           r')"
proof -
  have "ID (ticked now g1 ghosts') = ID g"
    using ticked_fields [of now g1 ghosts'] movePlayer_frame [OF assms(4)] by simp
  with assms show ?thesis
    by (simp add: gameTick_def moveGhosts_def Save_def Let_def ticked_def)
qed

lemma gameTick_SomeD:
  assumes "gameTick now r repo sid = Some (err, repo', r')"
    and "FindByID repo sid = Inr g" "\<not> GameOver g" "DotsLeft g \<noteq> 0"
  shows "\<exists>g1 ghosts'. movePlayer g = Some g1
           \<and> moveGhostsLoop g1 r (Ghosts g1) = Some (ghosts', r')"
  using assms
  by (auto simp: gameTick_def moveGhosts_def Let_def split: option.splits sum.splits if_splits)

lemma gameTick_total:
  assumes "repo sid = Some g" "board_ok (Board g)"
  shows "\<exists>err repo' r'. gameTick now r repo sid = Some (err, repo', r')"
proof (cases "FindByID repo sid")
  case (Inl e)
  then show ?thesis by (simp add: gameTick_not_found)
next
  case (Inr g0)
  with assms(1) have f: "FindByID repo sid = Inr g" by (simp add: FindByID_Inr)
  show ?thesis
  proof (cases "GameOver g \<or> DotsLeft g = 0")
    case True
    with f show ?thesis by (simp add: gameTick_ended)
  next
    case False
    obtain g1 where m: "movePlayer g = Some g1" using movePlayer_total [OF assms(2)] by blast
    have "board_ok (Board g1)" using movePlayer_board_ok [OF m assms(2)] .
    then obtain ghosts' r' where "moveGhostsLoop g1 r (Ghosts g1) = Some (ghosts', r')"
      using moveGhostsLoop_total by blast
    with f False m show ?thesis by (simp add: gameTick_moves)
  qed
qed

text \<open>What a tick that runs the movement steps leaves in the store.\<close>

lemma gameTick_moved:
  assumes "gameTick now r repo sid = Some (err, repo', r')"
    and "FindByID repo sid = Inr g" "\<not> GameOver g" "DotsLeft g \<noteq> 0"
  shows "\<exists>g1 ghosts'. movePlayer g = Some g1
           \<and> moveGhostsLoop g1 r (Ghosts g1) = Some (ghosts', r')
           \<and> repo' sid = Some (ticked now g1 ghosts')
           \<and> (\<forall>k. k \<noteq> sid \<and> k \<noteq> ID g \<longrightarrow> repo' k = repo k)
           \<and> (ID g \<noteq> [] \<longrightarrow> repo' (ID g) = Some (ticked now g1 ghosts'))
           \<and> (ID g = sid \<longrightarrow> err = Inr () \<and> repo' = repo(sid \<mapsto> ticked now g1 ghosts'))"
proof -
  from gameTick_SomeD [OF assms] obtain g1 ghosts' where
    m: "movePlayer g = Some g1" and l: "moveGhostsLoop g1 r (Ghosts g1) = Some (ghosts', r')"
    by blast
  from assms(2) have "sid \<noteq> []" by (simp add: FindByID_Inr)
  with assms(1) gameTick_moves [OF assms(2,3,4) m l, of now] m l show ?thesis
    by (auto split: if_splits)
qed

lemma gameTick_effect:
  assumes "gameTick now r repo sid = Some (err, repo', r')" "repo sid = Some g"
  shows "\<exists>g'. repo' sid = Some g' \<and> ID g' = ID g
           \<and> (GameOver g \<longrightarrow> GameOver g')
           \<and> (\<forall>y x. board_at (Board g') y x = Some CHR ''.''
                 \<longrightarrow> board_at (Board g) y x = Some CHR ''.'')"
proof (cases "FindByID repo sid = Inr g \<and> \<not> GameOver g \<and> DotsLeft g \<noteq> 0")
  case True
  then have f: "FindByID repo sid = Inr g" and ng: "\<not> GameOver g" and nd: "DotsLeft g \<noteq> 0"
    by simp_all
  from gameTick_moved [OF assms(1) f ng nd] obtain g1 ghosts' where
    m: "movePlayer g = Some g1" and s: "repo' sid = Some (ticked now g1 ghosts')"
    by blast
  let ?G = "ticked now g1 ghosts'"
  have 1: "ID ?G = ID g"
    using ticked_fields [of now g1 ghosts'] movePlayer_frame [OF m] by simp
  have 3: "GameOver g \<longrightarrow> GameOver ?G"
    using ticked_fields [of now g1 ghosts'] movePlayer_frame [OF m] by simp
  have 4: "\<forall>y x. board_at (Board ?G) y x = Some CHR ''.''
             \<longrightarrow> board_at (Board g) y x = Some CHR ''.''"
    using ticked_fields [of now g1 ghosts'] movePlayer_no_new_dot [OF m] by simp
  from s 1 3 4 show ?thesis by blast
next
  case False
  have "repo' = repo"
  proof (cases "FindByID repo sid")
    case (Inl e)
    with assms(1) show ?thesis by (simp add: gameTick_not_found)
  next
    case (Inr g0)
    with assms(2) have f: "FindByID repo sid = Inr g" by (simp add: FindByID_Inr)
    with False have "GameOver g \<or> DotsLeft g = 0" by blast
    from gameTick_ended [OF f this] assms(1) show ?thesis by simp
  qed
  with assms(2) show ?thesis by simp
qed

lemma gameTick_other:
  assumes "gameTick now r repo sid2 = Some (err, repo', r')" "repo_ok repo" "sid2 \<noteq> sid"
  shows "repo' sid = repo sid"
proof (cases "FindByID repo sid2")
  case (Inl e)
  with assms(1) show ?thesis by (simp add: gameTick_not_found)
next
  case (Inr g2)
  then have i: "ID g2 = sid2" using assms(2) by (simp add: FindByID_Inr repo_ok_def)
  show ?thesis
  proof (cases "GameOver g2 \<or> DotsLeft g2 = 0")
    case True
    from gameTick_ended [OF Inr this] assms(1) show ?thesis by simp
  next
    case False
    with gameTick_moved [OF assms(1) Inr] i assms(3) show ?thesis by auto
  qed
qed

lemma gameTick_repo_ok:
  assumes "gameTick now r repo sid = Some (err, repo', r')" "repo_ok repo"
  shows "repo_ok repo'"
proof -
  have inv: "ID g = k" if "repo k = Some g" for k g
    using assms(2) that unfolding repo_ok_def by blast
  have key: "ID g' = k" if k: "repo' k = Some g'" for k g'
  proof (cases "k = sid")
    case True
    show ?thesis
    proof (cases "repo sid")
      case None
      then have "FindByID repo sid = Inl (if sid = [] then ErrEmptyID else ErrNotFound)"
        by (simp add: FindByID_def)
      from gameTick_not_found [OF this] assms(1) have "repo' = repo" by simp
      with None k True show ?thesis by simp
    next
      case (Some g)
      from gameTick_effect [OF assms(1) Some] obtain g'' where
        "repo' sid = Some g''" "ID g'' = ID g" by blast
      with k True inv [OF Some] show ?thesis by simp
    qed
  next
    case False
    from False have "sid \<noteq> k" by simp
    from gameTick_other [OF assms(1,2) this] k have "repo k = Some g'" by simp
    then show ?thesis by (rule inv)
  qed
  show ?thesis unfolding repo_ok_def
  proof (intro allI impI)
    fix k g'
    assume "repo' k = Some g'"
    then show "ID g' = k" by (rule key)
  qed
qed

lemma SetPlayerDirection_result:
  assumes "SetPlayerDirection now repo sid dir = (err, repo')"
  shows "(repo' = repo \<and> err = Inl ErrGameNotFound \<and> (\<forall>g. FindByID repo sid \<noteq> Inr g))
     \<or> (\<exists>g. FindByID repo sid = Inr g
           \<and> repo' sid = Some (g\<lparr>PlayerDir := dir, UpdatedAt := now\<rparr>)
           \<and> (\<forall>k. k \<noteq> sid \<and> k \<noteq> ID g \<longrightarrow> repo' k = repo k)
           \<and> (ID g = sid \<longrightarrow> err = Inr ()
                 \<and> repo' = repo(sid \<mapsto> g\<lparr>PlayerDir := dir, UpdatedAt := now\<rparr>)))"
proof (cases "FindByID repo sid")
  case (Inl e)
  with assms show ?thesis by (simp add: SetPlayerDirection_def)
next
  case (Inr g)
  then have "sid \<noteq> []" by (simp add: FindByID_Inr)
  with assms Inr show ?thesis
    by (auto simp: SetPlayerDirection_def Save_def Let_def split: if_splits)
qed

lemma SetPlayerDirection_other:
  assumes "SetPlayerDirection now repo sid2 dir = (err, repo')" "repo_ok repo" "sid2 \<noteq> sid"
  shows "repo' sid = repo sid"
  using SetPlayerDirection_result [OF assms(1)] assms(2,3)
  by (auto simp: repo_ok_def FindByID_Inr)

lemma SetPlayerDirection_same:
  assumes "SetPlayerDirection now repo sid dir = (err, repo')" "repo sid = Some g"
  shows "repo' sid = Some g \<or> repo' sid = Some (g\<lparr>PlayerDir := dir, UpdatedAt := now\<rparr>)"
  using SetPlayerDirection_result [OF assms(1)] assms(2)
  by (auto simp: FindByID_Inr)

lemma SetPlayerDirection_repo_ok:
  assumes "SetPlayerDirection now repo sid dir = (err, repo')" "repo_ok repo"
  shows "repo_ok repo'"
proof -
  have inv: "ID g = k" if "repo k = Some g" for k g
    using assms(2) that unfolding repo_ok_def by blast
  have key: "ID g' = k" if k: "repo' k = Some g'" for k g'
  proof (cases "k = sid")
    case True
    show ?thesis
    proof (cases "repo sid")
      case None
      with SetPlayerDirection_result [OF assms(1)] have "repo' = repo"
        by (auto simp: FindByID_Inr)
      with None k True show ?thesis by simp
    next
      case (Some g)
      from SetPlayerDirection_same [OF assms(1) Some] k True
      have "ID g' = ID g" by auto
      with True inv [OF Some] show ?thesis by simp
    qed
  next
    case False
    from False have "sid \<noteq> k" by simp
    from SetPlayerDirection_other [OF assms(1,2) this] k have "repo k = Some g'" by simp
    then show ?thesis by (rule inv)
  qed
  show ?thesis unfolding repo_ok_def
  proof (intro allI impI)
    fix k g'
    assume "repo' k = Some g'"
    then show "ID g' = k" by (rule key)
  qed
qed

lemma later_no_new_dot:
  assumes "later repo repo''" "repo_ok repo" "repo sid = Some g"
    and "board_at (Board g) y x \<noteq> Some CHR ''.''"
  shows "repo_ok repo'' \<and> (\<exists>g''. repo'' sid = Some g'' \<and> board_at (Board g'') y x \<noteq> Some CHR ''.'')"
  using assms
proof (induction rule: later.induct)
  case (later_refl repo)
  then show ?case by simp
next
  case (later_tick repo repo1 now r sessionID err repo2 r')
  then obtain g1 where ok: "repo_ok repo1" and g1: "repo1 sid = Some g1"
    and c: "board_at (Board g1) y x \<noteq> Some CHR ''.''" by blast
  have "\<exists>g2. repo2 sid = Some g2 \<and> board_at (Board g2) y x \<noteq> Some CHR ''.''"
  proof (cases "sessionID = sid")
    case True
    with gameTick_effect [OF later_tick.hyps(2)] g1 c show ?thesis by auto
  next
    case False
    from gameTick_other [OF later_tick.hyps(2) ok False] g1 c show ?thesis by simp
  qed
  with gameTick_repo_ok [OF later_tick.hyps(2) ok] show ?case by simp
next
  case (later_heading repo repo1 now sessionID dir err repo2)
  then obtain g1 where ok: "repo_ok repo1" and g1: "repo1 sid = Some g1"
    and c: "board_at (Board g1) y x \<noteq> Some CHR ''.''" by blast
  have "\<exists>g2. repo2 sid = Some g2 \<and> board_at (Board g2) y x \<noteq> Some CHR ''.''"
  proof (cases "sessionID = sid")
    case True
    with SetPlayerDirection_same [OF later_heading.hyps(2)] g1 c show ?thesis by auto
  next
    case False
    from SetPlayerDirection_other [OF later_heading.hyps(2) ok False] g1 c show ?thesis by simp
  qed
  with SetPlayerDirection_repo_ok [OF later_heading.hyps(2) ok] show ?case by simp
qed

lemma ghost_step_ok_same_board:
  "Board g' = Board g \<Longrightarrow> ghost_step_ok g' a b = ghost_step_ok g a b"
  by (simp add: ghost_step_ok_def passable_def IsValidPosition_def)

lemma ghost_step_ok_refl: "list_all2 (ghost_step_ok g) ghosts ghosts"
  by (simp add: list_all2_refl ghost_step_ok_def)

section \<open>The range of \<open>int\<close> and the reachable stores\<close>

lemma wrap_int_succ:
  assumes "fits_int c"
  shows "wrap_int (c + 1) = c + 1 \<or> (c + 1 = 2 ^ 63 \<and> wrap_int (c + 1) = - (2 ^ 63))"
proof (cases "c + 1 < 2 ^ 63")
  case True
  with assms have "fits_int (c + 1)" by (simp add: fits_int_def)
  then show ?thesis by (simp add: wrap_int_fits)
next
  case False
  with assms have "c = 2 ^ 63 - 1" by (simp add: fits_int_def)
  then show ?thesis by (simp add: wrap_int_def)
qed

lemma wrap_int_pred:
  assumes "fits_int c"
  shows "wrap_int (c - 1) = c - 1 \<or> (c - 1 = - (2 ^ 63) - 1 \<and> wrap_int (c - 1) = 2 ^ 63 - 1)"
proof (cases "- (2 ^ 63) \<le> c - 1")
  case True
  with assms have "fits_int (c - 1)" by (simp add: fits_int_def)
  then show ?thesis by (simp add: wrap_int_fits)
next
  case False
  with assms have "c = - (2 ^ 63)" by (simp add: fits_int_def)
  then show ?thesis by (simp add: wrap_int_def)
qed

lemma Move_wrap_immaterial:
  assumes "fits_int (X p)" "fits_int (Y p)" "fits_int width" "fits_int height"
  shows "IsValidPosition g \<lparr>X = wrap_int (X (Move p d)), Y = wrap_int (Y (Move p d))\<rparr> width height
           = IsValidPosition g (Move p d) width height
         \<and> (IsValidPosition g (Move p d) width height = Some True
              \<longrightarrow> \<lparr>X = wrap_int (X (Move p d)), Y = wrap_int (Y (Move p d))\<rparr> = Move p d)"
proof -
  have same: "wrap_int (X p) = X p" "wrap_int (Y p) = Y p"
    using assms(1,2) by (simp_all add: wrap_int_fits)
  from assms(3,4) have w: "width < 2 ^ 63" "height < 2 ^ 63" by (simp_all add: fits_int_def)
  show ?thesis
  proof (cases d)
    case DirectionUp
    with wrap_int_pred [OF assms(2)] same w show ?thesis
      by (auto simp: IsValidPosition_def)
  next
    case DirectionDown
    with wrap_int_succ [OF assms(2)] same w show ?thesis
      by (auto simp: IsValidPosition_def)
  next
    case DirectionLeft
    with wrap_int_pred [OF assms(1)] same w show ?thesis
      by (auto simp: IsValidPosition_def)
  next
    case DirectionRight
    with wrap_int_succ [OF assms(1)] same w show ?thesis
      by (auto simp: IsValidPosition_def)
  next
    case DirectionNone
    with same show ?thesis by (simp add: IsValidPosition_def)
  qed
qed

lemma filter_dot_update:
  "j < length xs \<Longrightarrow> xs ! j = CHR ''.''
     \<Longrightarrow> length (filter (\<lambda>c. c = CHR ''.'') (xs[j := CHR '' ''])) + 1
         = length (filter (\<lambda>c. c = CHR ''.'') xs)"
proof (induction xs arbitrary: j)
  case Nil
  then show ?case by simp
next
  case (Cons a xs)
  then show ?case by (cases j) auto
qed

lemma dots_row_update:
  "i < length b
     \<Longrightarrow> length (filter (\<lambda>c. c = CHR ''.'') row') + 1 = length (filter (\<lambda>c. c = CHR ''.'') (b ! i))
     \<Longrightarrow> dots (b[i := row']) + 1 = dots b"
proof (induction b arbitrary: i)
  case Nil
  then show ?case by simp
next
  case (Cons a b)
  show ?case
  proof (cases i)
    case 0
    with Cons.prems show ?thesis by (simp add: dots_def)
  next
    case (Suc k)
    with Cons.prems have "dots (b[k := row']) + 1 = dots b" by (intro Cons.IH) simp_all
    with Suc show ?thesis by (simp add: dots_def)
  qed
qed

lemma dots_board_set:
  assumes "board_at b y x = Some CHR ''.''"
  shows "dots (board_set b y x CHR '' '') + 1 = dots b"
proof -
  from assms have y: "nat y < length b" and x: "nat x < length (b ! nat y)"
    and c: "b ! nat y ! nat x = CHR ''.''"
    by (auto simp: board_at_def split: if_splits)
  from filter_dot_update [OF x c] dots_row_update [OF y] show ?thesis
    by (simp add: board_set_def)
qed

lemma maze_dots: "DotsLeft (initializeGame 0 0 []) = 164"
  by code_simp

lemma initializeGame_session_ok: "session_ok (initializeGame created updated sessionID)"
proof -
  have b: "board_ok (map buildRow (take (nat GameHeight) maze))" by code_simp
  have d: "sum_list (map rowDots (take (nat GameHeight) maze))
             = int (dots (map buildRow (take (nat GameHeight) maze)))"
    by code_simp
  have p: "board_at (map buildRow (take (nat GameHeight) maze)) 1 1 = Some CHR ''.''"
    "board_at (map buildRow (take (nat GameHeight) maze)) 13 18 = Some CHR ''.''"
    "board_at (map buildRow (take (nat GameHeight) maze)) 1 18 = Some CHR ''.''"
    "board_at (map buildRow (take (nat GameHeight) maze)) 13 1 = Some CHR ''.''"
    by code_simp+
  show ?thesis
    using b d p
    by (simp add: session_ok_def initializeGame_def passable_iff GameWidth_def GameHeight_def)
qed

lemma session_ok_bounds:
  assumes "session_ok g"
  shows "0 \<le> DotsLeft g \<and> DotsLeft g \<le> 164 \<and> 0 \<le> Score g \<and> Score g \<le> 1640"
  using assms maze_dots by (auto simp: session_ok_def ScorePerDot_def)

lemma session_ok_fits:
  assumes "session_ok g"
  shows "fits_int (Score g + ScorePerDot) \<and> fits_int (DotsLeft g - 1)"
  using session_ok_bounds [OF assms] by (simp add: fits_int_def ScorePerDot_def)

lemma moveGhostsLoop_passable:
  assumes "moveGhostsLoop game r ghosts = Some (ghosts', r')"
    and "\<forall>ghost \<in> set ghosts. passable game (Position ghost)"
  shows "\<forall>ghost' \<in> set ghosts'. passable game (Position ghost')"
  using assms
proof (induction ghosts arbitrary: r ghosts')
  case Nil
  then show ?case by simp
next
  case (Cons ghost rest)
  from Cons.prems(1) obtain ghost' r1 rest' where
    a: "moveGhost game r ghost = Some (ghost', r1)"
    and b: "moveGhostsLoop game r1 rest = Some (rest', r')"
    and c: "ghosts' = ghost' # rest'"
    by (auto split: option.splits)
  from moveGhost_position [OF a] Cons.prems(2) have "passable game (Position ghost')" by auto
  moreover from Cons.IH [OF b] Cons.prems(2) have "\<forall>g \<in> set rest'. passable game (Position g)"
    by simp
  ultimately show ?case using c by simp
qed

lemma movePlayer_session_ok:
  assumes "movePlayer g = Some g1" "session_ok g"
  shows "session_ok g1"
proof -
  let ?n = "Move (Player g) (PlayerDir g)"
  have keep: "passable g1 p" if "passable g p" for p
    using movePlayer_passable [OF assms(1) that] .
  have ghosts: "\<forall>ghost \<in> set (Ghosts g1). passable g1 (Position ghost)"
    using assms(2) movePlayer_frame [OF assms(1)] keep by (auto simp: session_ok_def)
  have player: "passable g1 (Player g1)"
    using movePlayer_position [OF assms(1)] keep assms(2) by (auto simp: session_ok_def)
  have board: "board_ok (Board g1)"
    using movePlayer_board_ok [OF assms(1)] assms(2) by (simp add: session_ok_def)
  from movePlayer_cases [OF assms(1)]
  consider (same) "Board g1 = Board g" "Score g1 = Score g" "DotsLeft g1 = DotsLeft g"
    | (eat) "board_at (Board g) (Y ?n) (X ?n) = Some CHR ''.''"
        "Board g1 = board_set (Board g) (Y ?n) (X ?n) CHR '' ''"
        "Score g1 = wrap_int (Score g + ScorePerDot)"
        "DotsLeft g1 = wrap_int (DotsLeft g - 1)"
    by auto
  then have "DotsLeft g1 = int (dots (Board g1)) \<and> 0 \<le> Score g1
      \<and> Score g1 + ScorePerDot * DotsLeft g1 = ScorePerDot * DotsLeft (initializeGame 0 0 [])"
  proof cases
    case same
    with assms(2) show ?thesis by (auto simp: session_ok_def ScorePerDot_def)
  next
    case eat
    from dots_board_set [OF eat(1)] have d: "dots (Board g1) + 1 = dots (Board g)"
      by (simp add: eat(2))
    with assms(2) have pos: "1 \<le> DotsLeft g" and dl: "DotsLeft g - 1 = int (dots (Board g1))"
      by (simp_all add: session_ok_def)
    from session_ok_bounds [OF assms(2)] pos have "fits_int (DotsLeft g - 1)"
      by (simp add: fits_int_def)
    then have 1: "DotsLeft g1 = DotsLeft g - 1" by (simp add: eat(4) wrap_int_fits)
    from assms(2) pos maze_dots have "Score g \<le> 1630" "0 \<le> Score g"
      by (simp_all add: session_ok_def ScorePerDot_def)
    then have "fits_int (Score g + ScorePerDot)" by (simp add: fits_int_def ScorePerDot_def)
    then have 2: "Score g1 = Score g + ScorePerDot" by (simp add: eat(3) wrap_int_fits)
    from 1 2 dl assms(2) show ?thesis
      by (simp add: session_ok_def ScorePerDot_def)
  qed
  with board player ghosts show ?thesis unfolding session_ok_def by blast
qed

lemma ticked_session_ok:
  assumes "movePlayer g = Some g1" "moveGhostsLoop g1 r (Ghosts g1) = Some (ghosts', r')"
    and "session_ok g"
  shows "session_ok (ticked now g1 ghosts')"
proof -
  let ?G = "ticked now g1 ghosts'"
  have ok1: "session_ok g1" using movePlayer_session_ok [OF assms(1,3)] .
  have f: "Board ?G = Board g1" "Player ?G = Player g1" "Ghosts ?G = ghosts'"
    "Score ?G = Score g1" "DotsLeft ?G = DotsLeft g1"
    using ticked_fields [of now g1 ghosts'] by simp_all
  have same: "passable ?G pos = passable g1 pos" for pos
    using passable_same_board [OF f(1)] .
  from moveGhostsLoop_passable [OF assms(2)] ok1
  have "\<forall>ghost' \<in> set ghosts'. passable g1 (Position ghost')" by (simp add: session_ok_def)
  with ok1 show ?thesis by (auto simp: session_ok_def f same ScorePerDot_def)
qed

lemma heading_session_ok:
  assumes "session_ok g"
  shows "session_ok (g\<lparr>PlayerDir := dir, UpdatedAt := now\<rparr>)"
proof -
  have "passable (g\<lparr>PlayerDir := dir, UpdatedAt := now\<rparr>) pos = passable g pos" for pos
    by (rule passable_same_board) simp
  with assms show ?thesis by (auto simp: session_ok_def ScorePerDot_def)
qed

text \<open>Every session of a reachable store is filed under its identifier and well formed.\<close>

lemma reachable_sessions:
  assumes "reachable repo" "repo k = Some g"
  shows "ID g = k \<and> session_ok g"
  using assms
proof (induction arbitrary: k g rule: reachable.induct)
  case reach_new
  then show ?case by simp
next
  case (reach_create repo created updated sessionID res repo')
  show ?case
  proof (cases "sessionID = []")
    case True
    with reach_create.hyps(2) have "repo' = repo" by (simp add: CreateGame_def)
    with reach_create show ?thesis by simp
  next
    case False
    then have i: "ID (initializeGame created updated sessionID) = sessionID"
      by (simp add: initializeGame_def)
    with False reach_create.hyps(2)
    have r: "repo' = repo(sessionID \<mapsto> initializeGame created updated sessionID)"
      by (simp add: CreateGame_def Save_def Let_def)
    show ?thesis
    proof (cases "k = sessionID")
      case True
      with r reach_create.prems i initializeGame_session_ok show ?thesis by auto
    next
      case False
      with r reach_create.prems have "repo k = Some g" by simp
      then show ?thesis by (rule reach_create.IH)
    qed
  qed
next
  case (reach_delete repo sessionID repo')
  from reach_delete.hyps(2) have "repo' = repo(sessionID := None)"
    by (simp add: Delete_def split: if_splits)
  with reach_delete.prems have "repo k = Some g" by (simp split: if_splits)
  then show ?case by (rule reach_delete.IH)
next
  case (reach_tick repo now r sessionID err repo' r')
  show ?case
  proof (cases "\<exists>g0. FindByID repo sessionID = Inr g0 \<and> \<not> GameOver g0 \<and> DotsLeft g0 \<noteq> 0")
    case True
    then obtain g0 where f: "FindByID repo sessionID = Inr g0"
      and ng: "\<not> GameOver g0" and nd: "DotsLeft g0 \<noteq> 0" by blast
    from f have s0: "repo sessionID = Some g0" by (simp add: FindByID_Inr)
    from reach_tick.IH [OF s0] have i0: "ID g0 = sessionID" and ok0: "session_ok g0" by simp_all
    from gameTick_moved [OF reach_tick.hyps(2) f ng nd] i0 obtain g1 ghosts' where
      m: "movePlayer g0 = Some g1"
      and l: "moveGhostsLoop g1 r (Ghosts g1) = Some (ghosts', r')"
      and r: "repo' = repo(sessionID \<mapsto> ticked now g1 ghosts')"
      by blast
    show ?thesis
    proof (cases "k = sessionID")
      case True
      with r reach_tick.prems have "g = ticked now g1 ghosts'" by simp
      moreover have "ID (ticked now g1 ghosts') = sessionID"
        using ticked_fields [of now g1 ghosts'] movePlayer_frame [OF m] i0 by simp
      ultimately show ?thesis using ticked_session_ok [OF m l ok0] True by simp
    next
      case False
      with r reach_tick.prems have "repo k = Some g" by simp
      then show ?thesis by (rule reach_tick.IH)
    qed
  next
    case False
    have "repo' = repo"
    proof (cases "FindByID repo sessionID")
      case (Inl e)
      from gameTick_not_found [OF this] reach_tick.hyps(2) show ?thesis by simp
    next
      case (Inr g0)
      with False have "GameOver g0 \<or> DotsLeft g0 = 0" by blast
      from gameTick_ended [OF Inr this] reach_tick.hyps(2) show ?thesis by simp
    qed
    with reach_tick.prems have "repo k = Some g" by simp
    then show ?thesis by (rule reach_tick.IH)
  qed
next
  case (reach_heading repo now sessionID dir err repo')
  from SetPlayerDirection_result [OF reach_heading.hyps(2)]
  consider "repo' = repo"
    | g0 where "FindByID repo sessionID = Inr g0"
        "ID g0 = sessionID \<longrightarrow> repo' = repo(sessionID \<mapsto> g0\<lparr>PlayerDir := dir, UpdatedAt := now\<rparr>)"
    by blast
  then show ?case
  proof cases
    case 1
    with reach_heading.prems have "repo k = Some g" by simp
    then show ?thesis by (rule reach_heading.IH)
  next
    case 2
    from 2(1) have s0: "repo sessionID = Some g0" by (simp add: FindByID_Inr)
    from reach_heading.IH [OF s0] have i0: "ID g0 = sessionID" and ok0: "session_ok g0"
      by simp_all
    with 2(2) have r: "repo' = repo(sessionID \<mapsto> g0\<lparr>PlayerDir := dir, UpdatedAt := now\<rparr>)"
      by simp
    show ?thesis
    proof (cases "k = sessionID")
      case True
      with r reach_heading.prems have "g = g0\<lparr>PlayerDir := dir, UpdatedAt := now\<rparr>" by simp
      with heading_session_ok [OF ok0] i0 True show ?thesis by simp
    next
      case False
      with r reach_heading.prems have "repo k = Some g" by simp
      then show ?thesis by (rule reach_heading.IH)
    qed
  qed
qed

lemma gameTick_mono:
  assumes "gameTick now r repo sid = Some (err, repo', r')" "repo sid = Some g"
    and "fits_int (Score g + ScorePerDot)" "fits_int (DotsLeft g - 1)"
  shows "\<exists>g'. repo' sid = Some g' \<and> Score g \<le> Score g' \<and> DotsLeft g' \<le> DotsLeft g"
proof (cases "FindByID repo sid = Inr g \<and> \<not> GameOver g \<and> DotsLeft g \<noteq> 0")
  case True
  then have f: "FindByID repo sid = Inr g" and ng: "\<not> GameOver g" and nd: "DotsLeft g \<noteq> 0"
    by simp_all
  from gameTick_moved [OF assms(1) f ng nd] obtain g1 ghosts' where
    m: "movePlayer g = Some g1" and s: "repo' sid = Some (ticked now g1 ghosts')"
    by blast
  from movePlayer_mono [OF m assms(3,4)] ticked_fields [of now g1 ghosts'] s
  show ?thesis by simp
next
  case False
  have "repo' = repo"
  proof (cases "FindByID repo sid")
    case (Inl e)
    with assms(1) show ?thesis by (simp add: gameTick_not_found)
  next
    case (Inr g0)
    with assms(2) have f: "FindByID repo sid = Inr g" by (simp add: FindByID_Inr)
    with False have "GameOver g \<or> DotsLeft g = 0" by blast
    from gameTick_ended [OF f this] assms(1) show ?thesis by simp
  qed
  with assms(2) show ?thesis by simp
qed

text \<open>
  What the properties below assume of a session holds for every session of a store the
  service can reach.
\<close>

lemma reachable_session_ready:
  assumes "reachable repo" "FindByID repo sid = Inr g"
  shows "repo_ok repo \<and> ID g = sid \<and> board_ok (Board g)
     \<and> fits_int (Score g + ScorePerDot) \<and> fits_int (DotsLeft g - 1)
     \<and> passable g (Player g) \<and> (\<forall>ghost \<in> set (Ghosts g). passable g (Position ghost))"
proof -
  from assms(2) have s: "repo sid = Some g" by (simp add: FindByID_Inr)
  from reachable_sessions [OF assms(1) s] have i: "ID g = sid" and ok: "session_ok g"
    by simp_all
  have "repo_ok repo"
    unfolding repo_ok_def
  proof (intro allI impI)
    fix k g'
    assume "repo k = Some g'"
    from reachable_sessions [OF assms(1) this] show "ID g' = k" by simp
  qed
  with i ok session_ok_fits [OF ok] show ?thesis by (simp add: session_ok_def)
qed

lemma moveGhostsLoop_length:
  "moveGhostsLoop game r ghosts = Some (ghosts', r') \<Longrightarrow> length ghosts' = length ghosts"
  by (induction ghosts arbitrary: r ghosts') (auto split: option.splits)

lemma moveGhostsLoop_append:
  "moveGhostsLoop game r (xs @ ys) =
     (case moveGhostsLoop game r xs of
        None \<Rightarrow> None
      | Some (xs', r1) \<Rightarrow>
          (case moveGhostsLoop game r1 ys of
             None \<Rightarrow> None
           | Some (ys', r2) \<Rightarrow> Some (xs' @ ys', r2)))"
  by (induction xs arbitrary: r) (auto split: option.splits)

lemma abs_go_abs: "\<bar>x\<bar> < 2 ^ 63 \<Longrightarrow> abs_go x = \<bar>x\<bar>"
  by (simp add: abs_go_def wrap_int_fits fits_int_def)

lemma chaseDir_in_range:
  assumes "\<bar>X player - X ghostPos\<bar> < 2 ^ 63" "\<bar>Y player - Y ghostPos\<bar> < 2 ^ 63"
  shows "chaseDir player ghostPos =
     (if \<bar>X player - X ghostPos\<bar> > \<bar>Y player - Y ghostPos\<bar>
      then (if X player - X ghostPos > 0 then DirectionRight else DirectionLeft)
      else (if Y player - Y ghostPos > 0 then DirectionDown else DirectionUp))"
proof -
  from assms have "fits_int (X player - X ghostPos)" "fits_int (Y player - Y ghostPos)"
    unfolding fits_int_def by linarith+
  then have "wrap_int (X player - X ghostPos) = X player - X ghostPos"
    "wrap_int (Y player - Y ghostPos) = Y player - Y ghostPos"
    by (simp_all add: wrap_int_fits)
  with assms show ?thesis by (simp add: chaseDir_def Let_def abs_go_abs)
qed

lemma chooseDir_chase:
  assumes "\<not> fst (Intn 100 r) < 30"
  shows "chooseDir game r ghost = (chaseDir (Player game) (Position ghost), snd (Intn 100 r))"
  using assms by (cases "Intn 100 r") (simp add: chooseDir_def)

lemma moveGhost_commit:
  assumes "passable game (Move (Position ghost) (fst (chooseDir game r ghost)))"
  shows "moveGhost game r ghost
     = Some (ghost\<lparr>Position := Move (Position ghost) (fst (chooseDir game r ghost)),
                   Direction := fst (chooseDir game r ghost)\<rparr>,
             snd (chooseDir game r ghost))"
  using assms by (cases "chooseDir game r ghost") (simp add: moveGhost_def passable_def Let_def)

lemma passable_in_range:
  assumes "passable g p" "passable g q"
  shows "\<bar>X p - X q\<bar> < 2 ^ 63 \<and> \<bar>Y p - Y q\<bar> < 2 ^ 63"
proof -
  from passable_bounds [OF assms(1)] passable_bounds [OF assms(2)]
  have "\<bar>X p - X q\<bar> < 20" "\<bar>Y p - Y q\<bar> < 15"
    unfolding GameWidth_def GameHeight_def by linarith+
  moreover have "(20::int) < 2 ^ 63" "(15::int) < 2 ^ 63" by simp_all
  ultimately show ?thesis by linarith
qed

text \<open>In a reachable store no tick lowers a score or raises a count of dots left.\<close>

lemma reachable_tick_monotone:
  assumes "reachable repo" "FindByID repo sid = Inr g"
  shows "\<exists>err repo' r' g'. gameTick now r repo sid = Some (err, repo', r')
           \<and> repo' sid = Some g'
           \<and> Score g \<le> Score g' \<and> DotsLeft g' \<le> DotsLeft g
           \<and> (GameOver g \<longrightarrow> GameOver g')"
proof -
  from reachable_session_ready [OF assms] have b: "board_ok (Board g)"
    and fs: "fits_int (Score g + ScorePerDot)" and fd: "fits_int (DotsLeft g - 1)"
    by simp_all
  from assms(2) have s: "repo sid = Some g" by (simp add: FindByID_Inr)
  from gameTick_total [of repo sid g, OF s b] obtain err repo' r' where
    t: "gameTick now r repo sid = Some (err, repo', r')" by blast
  from gameTick_mono [OF t s fs fd] obtain g' where
    g': "repo' sid = Some g'" and m: "Score g \<le> Score g'" "DotsLeft g' \<le> DotsLeft g"
    by blast
  from gameTick_effect [OF t s] g' have "GameOver g \<longrightarrow> GameOver g'" by auto
  with t g' m show ?thesis by blast
qed

section \<open>The properties\<close>

text \<open>
  C9. Moving a position by a heading and then by the opposite heading gives the position
  back, for every position and every heading (none included).
\<close>

theorem Move_opposite: "Move (Move p h) (opposite h) = p"
  by (cases h) simp_all

text \<open>
  C8. For every board, \<open>IsValidPosition\<close> answers \<open>false\<close>, without a panic, at every
  position outside the width and height it is asked about. At a position inside them
  whose cell the board has, it answers \<open>false\<close> exactly when the cell is the wall
  \<open>#\<close>, so it answers \<open>true\<close> on a dot and on an empty cell; a board of 15 rows of 20
  cells has the cell of every position inside the game's width and height.
\<close>

theorem IsValidPosition_spec:
  "(X pos < 0 \<or> width \<le> X pos \<or> Y pos < 0 \<or> height \<le> Y pos
      \<longrightarrow> IsValidPosition g pos width height = Some False)
   \<and> (0 \<le> X pos \<and> X pos < width \<and> 0 \<le> Y pos \<and> Y pos < height
        \<and> board_at (Board g) (Y pos) (X pos) = Some c
      \<longrightarrow> IsValidPosition g pos width height = Some (c \<noteq> CHR ''#'')
          \<and> (c = CHR ''.'' \<or> c = CHR '' '' \<longrightarrow> IsValidPosition g pos width height = Some True))
   \<and> (0 \<le> X pos \<and> X pos < GameWidth \<and> 0 \<le> Y pos \<and> Y pos < GameHeight
        \<and> board_ok (Board g)
      \<longrightarrow> IsValidPosition g pos GameWidth GameHeight
            = Some (Board g ! nat (Y pos) ! nat (X pos) \<noteq> CHR ''#''))"
proof -
  have "IsValidPosition g pos GameWidth GameHeight
          = Some (Board g ! nat (Y pos) ! nat (X pos) \<noteq> CHR ''#'')"
    if "0 \<le> X pos" "X pos < GameWidth" "0 \<le> Y pos" "Y pos < GameHeight" "board_ok (Board g)"
    using that board_at_in_range [OF that(5,1,2,3,4)] by (simp add: IsValidPosition_def)
  then show ?thesis by (auto simp: IsValidPosition_def)
qed

theorem IsValidPosition_spec_witness:
  "IsValidPosition newGame \<lparr>X = 20, Y = 3\<rparr> GameWidth GameHeight = Some False
   \<and> IsValidPosition newGame \<lparr>X = 2, Y = 1\<rparr> GameWidth GameHeight = Some True
   \<and> IsValidPosition newGame \<lparr>X = 2, Y = 2\<rparr> GameWidth GameHeight = Some False
   \<and> IsValidPosition newGame \<lparr>X = 3, Y = 1\<rparr> GameWidth GameHeight
       = Some (Board newGame ! 1 ! 3 \<noteq> CHR ''#'')"
proof -
  have dot: "board_at (Board newGame) 1 2 = Some CHR ''.''" by code_simp
  have wall: "board_at (Board newGame) 2 2 = Some CHR ''#''" by code_simp
  have ok: "board_ok (Board newGame)" by code_simp
  from IsValidPosition_spec [of "\<lparr>X = 20, Y = 3\<rparr>" GameWidth GameHeight newGame]
  have 1: "IsValidPosition newGame \<lparr>X = 20, Y = 3\<rparr> GameWidth GameHeight = Some False"
    by (simp add: GameWidth_def)
  from IsValidPosition_spec [of "\<lparr>X = 2, Y = 1\<rparr>" GameWidth GameHeight newGame "CHR ''.''"] dot
  have 2: "IsValidPosition newGame \<lparr>X = 2, Y = 1\<rparr> GameWidth GameHeight = Some True"
    by (simp add: GameWidth_def GameHeight_def)
  from IsValidPosition_spec [of "\<lparr>X = 2, Y = 2\<rparr>" GameWidth GameHeight newGame "CHR ''#''"] wall
  have 3: "IsValidPosition newGame \<lparr>X = 2, Y = 2\<rparr> GameWidth GameHeight = Some False"
    by (simp add: GameWidth_def GameHeight_def)
  from IsValidPosition_spec [of "\<lparr>X = 3, Y = 1\<rparr>" GameWidth GameHeight newGame] ok
  have 4: "IsValidPosition newGame \<lparr>X = 3, Y = 1\<rparr> GameWidth GameHeight
             = Some (Board newGame ! 1 ! 3 \<noteq> CHR ''#'')"
    by (simp add: GameWidth_def GameHeight_def)
  from 1 2 3 4 show ?thesis by simp
qed

text \<open>
  C2. When the stored session has its terminal flag set or no dot left, \<open>gameTick\<close>
  returns the error that ends the loop and leaves the store, hence every field of the
  session, and the generator as they were.
\<close>

theorem gameTick_terminal:
  assumes "FindByID repo sid = Inr g" "GameOver g \<or> DotsLeft g = 0"
  shows "gameTick now r repo sid = Some (Inl ErrGameEnded, repo, r)
         \<and> \<not> continue (Inl ErrGameEnded)"
  using gameTick_ended [OF assms] by (simp add: continue_def)

theorem gameTick_terminal_witness:
  "gameTick 7 (constRand 50) (store1 endedGame) ''s''
     = Some (Inl ErrGameEnded, store1 endedGame, constRand 50)
   \<and> \<not> continue (Inl ErrGameEnded)"
proof -
  have f: "FindByID (store1 endedGame) ''s'' = Inr endedGame"
    by (simp add: FindByID_def store1_def endedGame_def newGame_def initializeGame_def)
  have e: "GameOver endedGame \<or> DotsLeft endedGame = 0"
    by (simp add: endedGame_def)
  show ?thesis using gameTick_terminal [OF f e] by simp
qed

text \<open>
  C1, as the specification states it, fails: a tick in which an adversary walks into the
  player sets the terminal flag and still returns \<open>nil\<close>, so the loop goes on to the
  next tick.
\<close>

theorem tick_continue_counterexample:
  "map_option continue (tick_err (gameTick 7 (constRand 50) (store1 collisionGame) ''s'')) = Some True
   \<and> map_option keepsGoing (tick_game ''s'' (gameTick 7 (constRand 50) (store1 collisionGame) ''s''))
       = Some False"
  by code_simp

text \<open>
  C1, amended. A tick that runs the movement steps on a session with a 20 x 15 board,
  stored under its own identifier, returns \<open>nil\<close> whatever the state it leaves; when it
  leaves the terminal flag set or no dot, it is the next tick that returns the error that
  ends the loop, and that tick leaves the store as it is.
\<close>

theorem tick_continue:
  assumes "FindByID repo sid = Inr g" "ID g = sid" "board_ok (Board g)"
    and "\<not> GameOver g" "DotsLeft g \<noteq> 0"
  shows "\<exists>repo' r' g'. gameTick now r repo sid = Some (Inr (), repo', r')
           \<and> continue (Inr ())
           \<and> repo' sid = Some g'
           \<and> (GameOver g' \<or> DotsLeft g' = 0 \<longrightarrow>
                gameTick now2 r2 repo' sid = Some (Inl ErrGameEnded, repo', r2)
                \<and> \<not> continue (Inl ErrGameEnded))"
proof -
  from assms(1) have s: "repo sid = Some g" and ne: "sid \<noteq> []" by (simp_all add: FindByID_Inr)
  from gameTick_total [of repo sid g, OF s assms(3)] obtain err repo' r' where
    t: "gameTick now r repo sid = Some (err, repo', r')" by blast
  from gameTick_moved [OF t assms(1,4,5)] assms(2) obtain g' where
    e: "err = Inr ()" and g': "repo' sid = Some g'" by blast
  have "gameTick now2 r2 repo' sid = Some (Inl ErrGameEnded, repo', r2)"
    if "GameOver g' \<or> DotsLeft g' = 0"
  proof -
    note that
    moreover from g' ne have "FindByID repo' sid = Inr g'" by (simp add: FindByID_Inr)
    ultimately show ?thesis by (simp add: gameTick_ended)
  qed
  with t e g' show ?thesis by (simp add: continue_def)
qed

theorem tick_continue_witness:
  "\<exists>repo' r'. gameTick 7 (constRand 50) (store1 collisionGame) ''s'' = Some (Inr (), repo', r')
      \<and> gameTick 8 (constRand 3) repo' ''s'' = Some (Inl ErrGameEnded, repo', constRand 3)"
proof -
  have f: "FindByID (store1 collisionGame) ''s'' = Inr collisionGame"
    by (simp add: FindByID_def store1_def collisionGame_def newGame_def initializeGame_def)
  have i: "ID collisionGame = ''s''" by code_simp
  have b: "board_ok (Board collisionGame)" by code_simp
  have n: "\<not> GameOver collisionGame" by code_simp
  have d: "DotsLeft collisionGame \<noteq> 0" by code_simp
  from tick_continue [OF f i b n d, of 7 "constRand 50" 8 "constRand 3"]
  obtain repo' r' g' where
    t: "gameTick 7 (constRand 50) (store1 collisionGame) ''s'' = Some (Inr (), repo', r')"
    and g: "repo' ''s'' = Some g'"
    and n: "GameOver g' \<or> DotsLeft g' = 0 \<longrightarrow>
              gameTick 8 (constRand 3) repo' ''s'' = Some (Inl ErrGameEnded, repo', constRand 3)"
    by blast
  have "map_option GameOver (tick_game ''s'' (gameTick 7 (constRand 50) (store1 collisionGame) ''s''))
          = Some True"
    by code_simp
  with t g have "GameOver g'" by (simp add: tick_game_def)
  with t n show ?thesis by blast
qed

text \<open>
  C3. A tick that runs the movement steps on a session whose pending heading leads to a
  passable cell holding a dot takes exactly one from the count of dots left, adds exactly
  \<open>ScorePerDot\<close>, which is 10, to the score, puts the player on that cell and makes
  the cell empty; after any further ticks and heading requests, for this or any other
  session, the cell is still not a dot. The new score and the new count are assumed to be
  values of the type \<open>int\<close>, as they are in every session of a reachable store
  (\<open>reachable_session_ready\<close>).
\<close>

theorem tick_eats_dot:
  assumes "repo_ok repo" "FindByID repo sid = Inr g" "board_ok (Board g)"
    and "\<not> GameOver g" "DotsLeft g \<noteq> 0" "PlayerDir g \<noteq> DirectionNone"
    and "passable g (Move (Player g) (PlayerDir g))"
    and "board_at (Board g) (Y (Move (Player g) (PlayerDir g))) (X (Move (Player g) (PlayerDir g)))
           = Some CHR ''.''"
    and "fits_int (Score g + ScorePerDot)" "fits_int (DotsLeft g - 1)"
  shows "\<exists>repo' r' g'. gameTick now r repo sid = Some (Inr (), repo', r')
           \<and> repo' sid = Some g'
           \<and> DotsLeft g' = DotsLeft g - 1
           \<and> Score g' = Score g + ScorePerDot \<and> ScorePerDot = 10
           \<and> Player g' = Move (Player g) (PlayerDir g)
           \<and> board_at (Board g') (Y (Move (Player g) (PlayerDir g))) (X (Move (Player g) (PlayerDir g)))
                = Some CHR '' ''
           \<and> (\<forall>repo''. later repo' repo'' \<longrightarrow>
                 (\<exists>g''. repo'' sid = Some g''
                    \<and> board_at (Board g'') (Y (Move (Player g) (PlayerDir g)))
                          (X (Move (Player g) (PlayerDir g))) \<noteq> Some CHR ''.''))"
proof -
  let ?n = "Move (Player g) (PlayerDir g)"
  let ?g1 = "g\<lparr>Player := ?n, Board := board_set (Board g) (Y ?n) (X ?n) CHR '' '',
                Score := wrap_int (Score g + ScorePerDot),
                DotsLeft := wrap_int (DotsLeft g - 1)\<rparr>"
  from assms(2) have s: "repo sid = Some g" by (simp add: FindByID_Inr)
  with assms(1) have i: "ID g = sid" unfolding repo_ok_def by blast
  have m: "movePlayer g = Some ?g1" using movePlayer_eats [OF assms(6,7,8)] .
  from gameTick_total [of repo sid g, OF s assms(3)] obtain err repo' r' where
    t: "gameTick now r repo sid = Some (err, repo', r')" by blast
  from gameTick_moved [OF t assms(2,4,5)] m i obtain ghosts' where
    e: "err = Inr ()" and s': "repo' sid = Some (ticked now ?g1 ghosts')"
    by auto
  let ?G = "ticked now ?g1 ghosts'"
  have fields: "DotsLeft ?G = DotsLeft g - 1" "Score ?G = Score g + ScorePerDot"
    "Player ?G = ?n" "Board ?G = board_set (Board g) (Y ?n) (X ?n) CHR '' ''"
    using ticked_fields [of now ?g1 ghosts'] assms(9,10) by (simp_all add: wrap_int_fits)
  from passable_bounds [OF assms(7)] have nn: "0 \<le> Y ?n" "0 \<le> X ?n" by simp_all
  have cell: "board_at (Board ?G) (Y ?n) (X ?n) = Some CHR '' ''"
    using assms(8) by (simp add: fields(4) board_at_board_set [OF nn])
  then have nodot: "board_at (Board ?G) (Y ?n) (X ?n) \<noteq> Some CHR ''.''" by simp
  have ok': "repo_ok repo'" using gameTick_repo_ok [OF t assms(1)] .
  have after: "\<exists>g''. repo'' sid = Some g'' \<and> board_at (Board g'') (Y ?n) (X ?n) \<noteq> Some CHR ''.''"
    if "later repo' repo''" for repo''
    using later_no_new_dot [OF that ok' s' nodot] by blast
  from t e s' fields(1,2,3) cell after show ?thesis
    by (simp add: ScorePerDot_def)
qed

theorem tick_eats_dot_witness:
  "\<exists>repo' r' g' err2 repo2 g2.
      gameTick 7 (constRand 50) (store1 dotGame) ''s'' = Some (Inr (), repo', r')
      \<and> repo' ''s'' = Some g'
      \<and> DotsLeft g' = 163 \<and> Score g' = 10
      \<and> Player g' = \<lparr>X = 2, Y = 1\<rparr>
      \<and> board_at (Board g') 1 2 = Some CHR '' ''
      \<and> SetPlayerDirection 9 repo' ''s'' DirectionUp = (err2, repo2)
      \<and> repo2 ''s'' = Some g2
      \<and> board_at (Board g2) 1 2 \<noteq> Some CHR ''.''"
proof -
  have i: "ID dotGame = ''s''" by (simp add: dotGame_def newGame_def initializeGame_def)
  have ok: "repo_ok (store1 dotGame)" by (simp add: repo_ok_def store1_def i)
  have f: "FindByID (store1 dotGame) ''s'' = Inr dotGame"
    by (simp add: FindByID_def store1_def i)
  have b: "board_ok (Board dotGame)" by code_simp
  have n: "\<not> GameOver dotGame" by code_simp
  have d: "DotsLeft dotGame \<noteq> 0" by code_simp
  have h: "PlayerDir dotGame \<noteq> DirectionNone" by code_simp
  have mv: "Move (Player dotGame) (PlayerDir dotGame) = \<lparr>X = 2, Y = 1\<rparr>"
    by (simp add: dotGame_def newGame_def initializeGame_def)
  have p: "passable dotGame (Move (Player dotGame) (PlayerDir dotGame))" by code_simp
  have c: "board_at (Board dotGame) (Y (Move (Player dotGame) (PlayerDir dotGame)))
             (X (Move (Player dotGame) (PlayerDir dotGame))) = Some CHR ''.''"
    by code_simp
  have fs: "fits_int (Score dotGame + ScorePerDot)" by code_simp
  have fd: "fits_int (DotsLeft dotGame - 1)" by code_simp
  have dl: "DotsLeft dotGame = 164" by code_simp
  have sc: "Score dotGame = 0" by code_simp
  from tick_eats_dot [OF ok f b n d h p c fs fd, of 7 "constRand 50"]
  obtain repo' r' g' where
    1: "gameTick 7 (constRand 50) (store1 dotGame) ''s'' = Some (Inr (), repo', r')"
    and 2: "repo' ''s'' = Some g'"
    and 3: "DotsLeft g' = 163" "Score g' = 10" "Player g' = \<lparr>X = 2, Y = 1\<rparr>"
      "board_at (Board g') 1 2 = Some CHR '' ''"
    and 4: "\<And>repo''. later repo' repo'' \<Longrightarrow>
               \<exists>g''. repo'' ''s'' = Some g'' \<and> board_at (Board g'') 1 2 \<noteq> Some CHR ''.''"
    unfolding mv dl sc by (auto simp: ScorePerDot_def)
  obtain err2 repo2 where 5: "SetPlayerDirection 9 repo' ''s'' DirectionUp = (err2, repo2)"
    by (cases "SetPlayerDirection 9 repo' ''s'' DirectionUp")
  have "later repo' repo2" using later_heading [OF later_refl 5] .
  from 4 [OF this] obtain g2 where
    6: "repo2 ''s'' = Some g2" "board_at (Board g2) 1 2 \<noteq> Some CHR ''.''" by blast
  from 1 2 3 5 6 show ?thesis by blast
qed

text \<open>
  C4. In \<open>moveGhosts\<close>, when the loop reaches an adversary with a roll that is not
  below 30 (a step that is not erratic) and the coordinate differences to the player are
  values of the type \<open>int\<close> with values of the type as magnitudes, the heading the
  adversary tries is horizontal when the horizontal distance to the player is the larger
  one (right if the player is further right, left otherwise) and vertical when the
  vertical distance is the larger one or the two are equal (down if the player is further
  down, up otherwise); when the cell in that heading is passable, \<open>moveGhosts\<close>
  returns that adversary on that cell with that heading. Positions on the board, as in
  every session of a reachable store, are in that range (\<open>passable_in_range\<close>).
\<close>

theorem chase_heading:
  assumes "Ghosts game = pre @ ghost # post"
    and "moveGhostsLoop game r pre = Some (pre', r1)"
    and "\<not> fst (Intn 100 r1) < 30"
    and "board_ok (Board game)"
    and "\<bar>X (Player game) - X (Position ghost)\<bar> < 2 ^ 63"
    and "\<bar>Y (Player game) - Y (Position ghost)\<bar> < 2 ^ 63"
  shows "\<exists>game' r'. moveGhosts r game = Some (game', r')
       \<and> length (Ghosts game') = length (Ghosts game)
       \<and> (\<bar>X (Player game) - X (Position ghost)\<bar> > \<bar>Y (Player game) - Y (Position ghost)\<bar>
            \<longrightarrow> fst (chooseDir game r1 ghost)
                  = (if X (Player game) - X (Position ghost) > 0 then DirectionRight
                     else DirectionLeft))
       \<and> (\<bar>X (Player game) - X (Position ghost)\<bar> < \<bar>Y (Player game) - Y (Position ghost)\<bar>
            \<longrightarrow> fst (chooseDir game r1 ghost)
                  = (if Y (Player game) - Y (Position ghost) > 0 then DirectionDown
                     else DirectionUp))
       \<and> (\<bar>X (Player game) - X (Position ghost)\<bar> = \<bar>Y (Player game) - Y (Position ghost)\<bar>
            \<longrightarrow> fst (chooseDir game r1 ghost)
                  = (if Y (Player game) - Y (Position ghost) > 0 then DirectionDown
                     else DirectionUp))
       \<and> (passable game (Move (Position ghost) (fst (chooseDir game r1 ghost)))
            \<longrightarrow> Ghosts game' ! length pre
                  = ghost\<lparr>Position := Move (Position ghost) (fst (chooseDir game r1 ghost)),
                          Direction := fst (chooseDir game r1 ghost)\<rparr>)"
proof -
  let ?dir = "fst (chooseDir game r1 ghost)"
  have dir: "?dir = chaseDir (Player game) (Position ghost)"
    using chooseDir_chase [OF assms(3)] by simp
  note spec = chaseDir_in_range [OF assms(5,6)]
  obtain ghost' r2 where mg: "moveGhost game r1 ghost = Some (ghost', r2)"
    using moveGhost_total [OF assms(4)] by blast
  obtain post' r3 where ml: "moveGhostsLoop game r2 post = Some (post', r3)"
    using moveGhostsLoop_total [OF assms(4)] by blast
  have "moveGhostsLoop game r (Ghosts game) = Some (pre' @ ghost' # post', r3)"
    by (simp add: assms(1) moveGhostsLoop_append assms(2) mg ml)
  then have mv: "moveGhosts r game = Some (game\<lparr>Ghosts := pre' @ ghost' # post'\<rparr>, r3)"
    by (simp add: moveGhosts_def)
  have lp: "length pre' = length pre" using moveGhostsLoop_length [OF assms(2)] .
  have lq: "length post' = length post" using moveGhostsLoop_length [OF ml] .
  have len: "length (pre' @ ghost' # post') = length (Ghosts game)"
    by (simp add: assms(1) lp lq)
  have nth: "(pre' @ ghost' # post') ! length pre = ghost'"
    using lp by (metis nth_append_length)
  have commit: "ghost' = ghost\<lparr>Position := Move (Position ghost) ?dir, Direction := ?dir\<rparr>"
    if "passable game (Move (Position ghost) ?dir)"
    using moveGhost_commit [OF that] mg by simp
  have 1: "\<bar>X (Player game) - X (Position ghost)\<bar> > \<bar>Y (Player game) - Y (Position ghost)\<bar>
      \<longrightarrow> ?dir = (if X (Player game) - X (Position ghost) > 0 then DirectionRight
                  else DirectionLeft)"
    using dir spec by simp
  have 2: "\<bar>X (Player game) - X (Position ghost)\<bar> < \<bar>Y (Player game) - Y (Position ghost)\<bar>
      \<longrightarrow> ?dir = (if Y (Player game) - Y (Position ghost) > 0 then DirectionDown
                  else DirectionUp)"
    using dir spec by simp
  have 3: "\<bar>X (Player game) - X (Position ghost)\<bar> = \<bar>Y (Player game) - Y (Position ghost)\<bar>
      \<longrightarrow> ?dir = (if Y (Player game) - Y (Position ghost) > 0 then DirectionDown
                  else DirectionUp)"
    using dir spec by simp
  have 0: "length (Ghosts (game\<lparr>Ghosts := pre' @ ghost' # post'\<rparr>)) = length (Ghosts game)"
    using len by simp
  have 4: "passable game (Move (Position ghost) ?dir)
      \<longrightarrow> Ghosts (game\<lparr>Ghosts := pre' @ ghost' # post'\<rparr>) ! length pre
            = ghost\<lparr>Position := Move (Position ghost) ?dir, Direction := ?dir\<rparr>"
  proof
    assume "passable game (Move (Position ghost) ?dir)"
    from commit [OF this] nth
    show "Ghosts (game\<lparr>Ghosts := pre' @ ghost' # post'\<rparr>) ! length pre
            = ghost\<lparr>Position := Move (Position ghost) ?dir, Direction := ?dir\<rparr>"
      by simp
  qed
  show ?thesis
    by (intro exI conjI) (rule mv, rule 0, rule 1, rule 2, rule 3, rule 4)
qed

theorem chase_heading_witness:
  "(\<exists>game' r'. moveGhosts (constRand 50) newGame = Some (game', r')
      \<and> length (Ghosts game') = 3
      \<and> Ghosts game' ! 0 = \<lparr>Position = \<lparr>X = 17, Y = 13\<rparr>, Direction = DirectionLeft\<rparr>
      \<and> Ghosts game' ! 2 = \<lparr>Position = \<lparr>X = 1, Y = 12\<rparr>, Direction = DirectionUp\<rparr>)
   \<and> (\<exists>game' r'. moveGhosts (constRand 50) tieGame = Some (game', r')
      \<and> Ghosts game' ! 0 = \<lparr>Position = \<lparr>X = 4, Y = 3\<rparr>, Direction = DirectionUp\<rparr>)"
proof -
  let ?a = "\<lparr>Position = \<lparr>X = 18, Y = 13\<rparr>, Direction = DirectionLeft\<rparr>"
  let ?b = "\<lparr>Position = \<lparr>X = 18, Y = 1\<rparr>, Direction = DirectionLeft\<rparr>"
  let ?c = "\<lparr>Position = \<lparr>X = 1, Y = 13\<rparr>, Direction = DirectionRight\<rparr>"
  let ?t = "\<lparr>Position = \<lparr>X = 4, Y = 4\<rparr>, Direction = DirectionLeft\<rparr>"
  have roll: "\<not> fst (Intn 100 (constRand 50)) < 30" by (simp add: Intn_def constRand_def)
  have p: "Player newGame = \<lparr>X = 1, Y = 1\<rparr>" by (simp add: newGame_def initializeGame_def)
  have pt: "Player tieGame = \<lparr>X = 1, Y = 1\<rparr>"
    by (simp add: tieGame_def newGame_def initializeGame_def)
  have ok: "board_ok (Board newGame)" by code_simp
  have okt: "board_ok (Board tieGame)" by code_simp
  have gs: "Ghosts newGame = [] @ ?a # [?b, ?c]"
    by (simp add: newGame_def initializeGame_def GameWidth_def GameHeight_def)
  have gs2: "Ghosts newGame = [?a, ?b] @ ?c # []"
    by (simp add: newGame_def initializeGame_def GameWidth_def GameHeight_def)
  have gt: "Ghosts tieGame = [] @ ?t # []" by (simp add: tieGame_def)
  have l0: "moveGhostsLoop g r [] = Some ([], r)" for g r by simp
  from chase_heading [OF gs l0 roll ok] p
  obtain game' r' where
    m: "moveGhosts (constRand 50) newGame = Some (game', r')"
    and n: "length (Ghosts game') = length (Ghosts newGame)"
    and d: "fst (chooseDir newGame (constRand 50) ?a) = DirectionLeft"
    and c: "passable newGame (Move (Position ?a) (fst (chooseDir newGame (constRand 50) ?a)))
              \<longrightarrow> Ghosts game' ! length ([] :: Ghost list)
                  = ?a\<lparr>Position := Move (Position ?a) (fst (chooseDir newGame (constRand 50) ?a)),
                       Direction := fst (chooseDir newGame (constRand 50) ?a)\<rparr>"
    by auto
  have "passable newGame (Move (Position ?a) DirectionLeft)" by code_simp
  with c d have a: "Ghosts game' ! 0 = \<lparr>Position = \<lparr>X = 17, Y = 13\<rparr>, Direction = DirectionLeft\<rparr>"
    by simp
  from n gs have n3: "length (Ghosts game') = 3" by simp
  obtain pre' r1 where l2: "moveGhostsLoop newGame (constRand 50) [?a, ?b] = Some (pre', r1)"
    using moveGhostsLoop_total [OF ok] by blast
  have "map_option (\<lambda>(gs, r). fst (Intn 100 r)) (moveGhostsLoop newGame (constRand 50) [?a, ?b])
          = Some 50"
    by code_simp
  with l2 have roll2: "\<not> fst (Intn 100 r1) < 30" by simp
  from chase_heading [OF gs2 l2 roll2 ok] p m
  have d2: "fst (chooseDir newGame r1 ?c) = DirectionUp"
    and c2: "passable newGame (Move (Position ?c) (fst (chooseDir newGame r1 ?c)))
              \<longrightarrow> Ghosts game' ! length [?a, ?b]
                  = ?c\<lparr>Position := Move (Position ?c) (fst (chooseDir newGame r1 ?c)),
                       Direction := fst (chooseDir newGame r1 ?c)\<rparr>"
    by auto
  have "passable newGame (Move (Position ?c) DirectionUp)" by code_simp
  with c2 d2 have b: "Ghosts game' ! 2 = \<lparr>Position = \<lparr>X = 1, Y = 12\<rparr>, Direction = DirectionUp\<rparr>"
    by (simp add: numeral_2_eq_2)
  from chase_heading [OF gt l0 roll okt] pt
  obtain gameT rT where
    mt: "moveGhosts (constRand 50) tieGame = Some (gameT, rT)"
    and dt: "fst (chooseDir tieGame (constRand 50) ?t) = DirectionUp"
    and ct: "passable tieGame (Move (Position ?t) (fst (chooseDir tieGame (constRand 50) ?t)))
              \<longrightarrow> Ghosts gameT ! length ([] :: Ghost list)
                  = ?t\<lparr>Position := Move (Position ?t) (fst (chooseDir tieGame (constRand 50) ?t)),
                       Direction := fst (chooseDir tieGame (constRand 50) ?t)\<rparr>"
    by auto
  have "passable tieGame (Move (Position ?t) DirectionUp)" by code_simp
  with ct dt have t: "Ghosts gameT ! 0 = \<lparr>Position = \<lparr>X = 4, Y = 3\<rparr>, Direction = DirectionUp\<rparr>"
    by simp
  from m n3 a b mt t show ?thesis by blast
qed

text \<open>
  C5 fails on the code. \<open>cleanupGameLoop\<close> deletes the registry entry of the session
  whichever task put it there: when a superseded task returns, it removes the cancel
  function of its successor, the next start finds no task to cancel, and two tasks that
  are neither cancelled nor returned tick the same session. The steps are three
  start requests for an existing session, with the first task seeing its cancellation
  between the second and the third.
\<close>

theorem supersede_leaves_two_loops:
  "runningCount ''s''
     (steps (store1 newGame) newSupervisor [Start ''s'', Start ''s'', CancelSeen 0, Start ''s''])
   = Some 2"
  by code_simp

text \<open>As long as the superseded task has not returned, a second start leaves one task.\<close>

lemma supersede_cancels:
  "runningCount ''s'' (steps (store1 newGame) newSupervisor [Start ''s'', Start ''s'']) = Some 1"
  by code_simp

text \<open>
  C6. Over every tick of a stored session with a 20 x 15 board, the score does not go
  down, the count of dots left does not go up, and a terminal flag that is set stays set.
  The score with one more reward and the count with one dot less are assumed to be values
  of the type \<open>int\<close>, as they are in every session of a reachable store
  (\<open>reachable_session_ready\<close>).
\<close>

theorem tick_monotone:
  assumes "FindByID repo sid = Inr g" "board_ok (Board g)"
    and "fits_int (Score g + ScorePerDot)" "fits_int (DotsLeft g - 1)"
  shows "\<exists>err repo' r' g'. gameTick now r repo sid = Some (err, repo', r')
           \<and> repo' sid = Some g'
           \<and> Score g \<le> Score g' \<and> DotsLeft g' \<le> DotsLeft g
           \<and> (GameOver g \<longrightarrow> GameOver g')"
proof -
  from assms(1) have s: "repo sid = Some g" by (simp add: FindByID_Inr)
  from gameTick_total [of repo sid g, OF s assms(2)] obtain err repo' r' where
    t: "gameTick now r repo sid = Some (err, repo', r')" by blast
  from gameTick_mono [OF t s assms(3,4)] obtain g' where
    g': "repo' sid = Some g'" and m: "Score g \<le> Score g'" "DotsLeft g' \<le> DotsLeft g"
    by blast
  from gameTick_effect [OF t s] g' have "GameOver g \<longrightarrow> GameOver g'" by auto
  with t g' m show ?thesis by blast
qed

theorem tick_monotone_witness:
  "(\<exists>err repo' r' g'. gameTick 7 (constRand 50) (store1 endedGame) ''s'' = Some (err, repo', r')
      \<and> repo' ''s'' = Some g' \<and> Score endedGame \<le> Score g' \<and> DotsLeft g' \<le> DotsLeft endedGame
      \<and> GameOver g')
   \<and> (\<exists>err repo' r' g'. gameTick 7 (constRand 50) (store1 dotGame) ''s'' = Some (err, repo', r')
      \<and> repo' ''s'' = Some g' \<and> Score dotGame \<le> Score g' \<and> DotsLeft g' \<le> DotsLeft dotGame)"
proof -
  have f': "FindByID (store1 dotGame) ''s'' = Inr dotGame"
    by (simp add: FindByID_def store1_def dotGame_def newGame_def initializeGame_def)
  have b': "board_ok (Board dotGame)" by code_simp
  have fs': "fits_int (Score dotGame + ScorePerDot)" by code_simp
  have fd': "fits_int (DotsLeft dotGame - 1)" by code_simp
  from tick_monotone [OF f' b' fs' fd', of 7 "constRand 50"]
  have 2: "\<exists>err repo' r' g'. gameTick 7 (constRand 50) (store1 dotGame) ''s'' = Some (err, repo', r')
      \<and> repo' ''s'' = Some g' \<and> Score dotGame \<le> Score g' \<and> DotsLeft g' \<le> DotsLeft dotGame"
    by blast
  have f: "FindByID (store1 endedGame) ''s'' = Inr endedGame"
    by (simp add: FindByID_def store1_def endedGame_def newGame_def initializeGame_def)
  have b: "board_ok (Board endedGame)" by code_simp
  have o: "GameOver endedGame" by code_simp
  have fs: "fits_int (Score endedGame + ScorePerDot)" by code_simp
  have fd: "fits_int (DotsLeft endedGame - 1)" by code_simp
  from tick_monotone [OF f b fs fd, of 7 "constRand 50"] o 2 show ?thesis by simp
qed

text \<open>
  C7, as the specification states it, fails: \<open>SetPlayerDirection\<close> also writes the
  time of the request into \<open>UpdatedAt\<close>.
\<close>

theorem SetPlayerDirection_counterexample:
  "map_option UpdatedAt (snd (SetPlayerDirection 5 (store1 newGame) ''s'' DirectionUp) ''s'') = Some 5
   \<and> map_option UpdatedAt (store1 newGame ''s'') = Some 0"
  by code_simp

text \<open>
  C7, amended. For a session found in the store under its own identifier,
  \<open>SetPlayerDirection\<close> succeeds and changes the pending heading and \<open>UpdatedAt\<close> of
  that session and nothing else: its identifier, board, player position, adversaries,
  score, count of dots left, terminal flag and \<open>CreatedAt\<close> are as before, and so is
  every other session of the store.
\<close>

theorem SetPlayerDirection_frame:
  assumes "FindByID repo sid = Inr g" "ID g = sid"
  shows "\<exists>g'. SetPlayerDirection now repo sid dir = (Inr (), repo(sid \<mapsto> g'))
           \<and> g' = g\<lparr>PlayerDir := dir, UpdatedAt := now\<rparr>
           \<and> PlayerDir g' = dir \<and> UpdatedAt g' = now
           \<and> ID g' = ID g \<and> Board g' = Board g \<and> Player g' = Player g
           \<and> Ghosts g' = Ghosts g \<and> Score g' = Score g \<and> DotsLeft g' = DotsLeft g
           \<and> GameOver g' = GameOver g \<and> CreatedAt g' = CreatedAt g"
proof -
  from assms(1) have "sid \<noteq> []" by (simp add: FindByID_Inr)
  with assms show ?thesis
    by (simp add: SetPlayerDirection_def Save_def Let_def)
qed

theorem SetPlayerDirection_frame_witness:
  "\<exists>g'. SetPlayerDirection 5 (store1 newGame) ''s'' DirectionUp
           = (Inr (), (store1 newGame)(''s'' \<mapsto> g'))
     \<and> PlayerDir g' = DirectionUp \<and> UpdatedAt g' = 5
     \<and> Board g' = Board newGame \<and> Player g' = Player newGame \<and> Ghosts g' = Ghosts newGame
     \<and> Score g' = Score newGame \<and> DotsLeft g' = DotsLeft newGame
     \<and> GameOver g' = GameOver newGame \<and> CreatedAt g' = CreatedAt newGame"
proof -
  have f: "FindByID (store1 newGame) ''s'' = Inr newGame"
    by (simp add: FindByID_def store1_def newGame_def initializeGame_def)
  have i: "ID newGame = ''s''" by code_simp
  from SetPlayerDirection_frame [OF f i, of 5 DirectionUp] show ?thesis by blast
qed

text \<open>
  C10. When the player and every adversary of a stored session with a 20 x 15 board stand
  on passable cells, a tick completes and they stand on passable cells afterwards: the
  player is where it was or on the passable cell its heading led to, and every adversary
  is where it was or on a passable cell next to it.
\<close>

theorem tick_keeps_passable:
  assumes "FindByID repo sid = Inr g" "board_ok (Board g)"
    and "passable g (Player g)" "\<forall>ghost \<in> set (Ghosts g). passable g (Position ghost)"
  shows "\<exists>err repo' r' g'. gameTick now r repo sid = Some (err, repo', r')
           \<and> repo' sid = Some g'
           \<and> passable g' (Player g')
           \<and> (\<forall>ghost \<in> set (Ghosts g'). passable g' (Position ghost))
           \<and> (Player g' = Player g
                \<or> (Player g' = Move (Player g) (PlayerDir g)
                    \<and> passable g (Move (Player g) (PlayerDir g))))
           \<and> list_all2 (ghost_step_ok g') (Ghosts g) (Ghosts g')"
proof -
  from assms(1) have s: "repo sid = Some g" by (simp add: FindByID_Inr)
  from gameTick_total [of repo sid g, OF s assms(2)] obtain err repo' r' where
    t: "gameTick now r repo sid = Some (err, repo', r')" by blast
  show ?thesis
  proof (cases "GameOver g \<or> DotsLeft g = 0")
    case True
    from gameTick_ended [OF assms(1) True] t have "repo' = repo" by simp
    with t s assms(3,4) ghost_step_ok_refl [of g "Ghosts g"] show ?thesis by blast
  next
    case False
    then have ng: "\<not> GameOver g" and nd: "DotsLeft g \<noteq> 0" by simp_all
    from gameTick_moved [OF t assms(1) ng nd] obtain g1 ghosts' where
      m: "movePlayer g = Some g1"
      and l: "moveGhostsLoop g1 r (Ghosts g1) = Some (ghosts', r')"
      and s': "repo' sid = Some (ticked now g1 ghosts')"
      by blast
    let ?G = "ticked now g1 ghosts'"
    have bd: "Board ?G = Board g1" and pl: "Player ?G = Player g1" and gh: "Ghosts ?G = ghosts'"
      using ticked_fields [of now g1 ghosts'] by simp_all
    have same: "passable ?G pos = passable g1 pos" for pos
      using passable_same_board [OF bd] .
    have pos: "Player g1 = Player g
        \<or> (Player g1 = Move (Player g) (PlayerDir g) \<and> passable g (Move (Player g) (PlayerDir g)))"
      using movePlayer_position [OF m] .
    have keep: "passable g1 p" if "passable g p" for p
      using movePlayer_passable [OF m that] .
    have player: "passable g1 (Player g1)"
      using pos keep assms(3) by auto
    have og: "Ghosts g1 = Ghosts g" using movePlayer_frame [OF m] by simp
    from moveGhostsLoop_positions [OF l] og
    have steps: "list_all2 (ghost_step_ok g1) (Ghosts g) ghosts'" by simp
    have ghosts: "passable g1 (Position ghost')" if "ghost' \<in> set ghosts'" for ghost'
    proof -
      from that obtain i where i: "i < length ghosts'" and e: "ghosts' ! i = ghost'"
        by (auto simp: in_set_conv_nth)
      from steps i have len: "i < length (Ghosts g)" by (simp add: list_all2_lengthD)
      from steps len e have st: "ghost_step_ok g1 (Ghosts g ! i) ghost'"
        by (auto dest: list_all2_nthD)
      from len have "Ghosts g ! i \<in> set (Ghosts g)" by simp
      with assms(4) have "passable g (Position (Ghosts g ! i))" by blast
      then have "passable g1 (Position (Ghosts g ! i))" by (rule keep)
      with st show ?thesis by (auto simp: ghost_step_ok_def)
    qed
    have 1: "passable ?G (Player ?G)" using player by (simp add: same pl)
    have 2: "\<forall>ghost \<in> set (Ghosts ?G). passable ?G (Position ghost)"
      using ghosts by (simp add: same gh)
    have 3: "Player ?G = Player g
        \<or> (Player ?G = Move (Player g) (PlayerDir g) \<and> passable g (Move (Player g) (PlayerDir g)))"
      using pos by (simp add: pl)
    have "ghost_step_ok ?G = ghost_step_ok g1"
      by (intro ext) (rule ghost_step_ok_same_board [OF bd])
    with steps have 4: "list_all2 (ghost_step_ok ?G) (Ghosts g) (Ghosts ?G)"
      by (simp add: gh)
    from t s' 1 2 3 4 show ?thesis by blast
  qed
qed

theorem tick_keeps_passable_witness:
  "\<exists>err repo' r' g'. gameTick 7 (constRand 50) (store1 dotGame) ''s'' = Some (err, repo', r')
     \<and> repo' ''s'' = Some g'
     \<and> passable g' (Player g')
     \<and> list_all (\<lambda>ghost. passable g' (Position ghost)) (Ghosts g')
     \<and> list_all2 (ghost_step_ok g') (Ghosts dotGame) (Ghosts g')"
proof -
  have f: "FindByID (store1 dotGame) ''s'' = Inr dotGame"
    by (simp add: FindByID_def store1_def dotGame_def newGame_def initializeGame_def)
  have b: "board_ok (Board dotGame)" by code_simp
  have p: "passable dotGame (Player dotGame)" by code_simp
  have g: "\<forall>ghost \<in> set (Ghosts dotGame). passable dotGame (Position ghost)" by code_simp
  from tick_keeps_passable [OF f b p g, of 7 "constRand 50"] show ?thesis
    by (auto simp: list_all_iff)
qed

end
